theory Spec2Isabelle
  imports Main "HOL-Library.Word" "HOL-Library.Char_ord" "HOL-Library.List_Lexorder" "HOL-Library.Tree"
begin

section \<open>Service names\<close>

text \<open>
  The body of the loop of \<open>svc_check_name\<close> (service.c, line 215): the bytes a
  service name may hold.
\<close>

definition name_byte_ok :: "char \<Rightarrow> bool" where
  "name_byte_ok c =
     ((CHR ''a'' \<le> c \<and> c \<le> CHR ''z'') \<or> (CHR ''A'' \<le> c \<and> c \<le> CHR ''Z'')
      \<or> (CHR ''0'' \<le> c \<and> c \<le> CHR ''9'') \<or> c = CHR ''.'' \<or> c = CHR ''_'' \<or> c = CHR ''-'')"

fun check_name_loop :: "string \<Rightarrow> bool" where
  "check_name_loop [] = True"
| "check_name_loop (c # cs) = (if \<not> name_byte_ok c then False else check_name_loop cs)"

text \<open>
  \<open>svc_check_name\<close> (service.c, lines 210-218). The constant \<open>NAME_BUF_SIZE\<close> comes
  from a header that is not part of the sources, so it is a parameter. A name is the
  list of its \<open>name.len\<close> bytes.
\<close>

definition svc_check_name :: "int \<Rightarrow> string \<Rightarrow> bool" where
  "svc_check_name name_buf_size nm =
     (if int (length nm) \<ge> name_buf_size then False else check_name_loop nm)"

section \<open>String segments\<close>

text \<open>
  A \<open>strseg_t\<close> is a pointer \<open>data\<close> into a byte buffer and a length \<open>len\<close> (an
  \<open>int\<close>, which \<open>strseg_tok_next\<close> leaves at \<open>-1\<close> once the last token is taken).
  Here the pointer is the offset of \<open>data\<close> in the buffer it points into, and the
  buffer is passed along.
\<close>

type_synonym strseg = "nat \<times> int"

definition seg_bytes :: "string \<Rightarrow> strseg \<Rightarrow> string" where
  "seg_bytes buf s = take (nat (snd s)) (drop (fst s) buf)"

definition NUL :: char where
  "NUL = CHR 0x00"

definition TAB :: char where
  "TAB = CHR 0x09"

text \<open>
  Modelled from the spec: \<open>strseg_tok_next\<close> is defined outside service.c. The spec
  speaks of tab-separated tokens, of entries that end in NUL and of a key that is the
  prefix up to the first \<open>=\<close>; service.c guards its calls with \<open>len > 0\<close> and
  \<open>len < 0\<close> tests and expects empty tokens. So: a segment of negative length has no
  token; otherwise the token runs up to the first separator (or the end), and the
  segment continues one byte after it, with length \<open>-1\<close> when no separator was found.
  The result is the advanced segment and the token.
\<close>

definition strseg_tok_next :: "string \<Rightarrow> char \<Rightarrow> strseg \<Rightarrow> (strseg \<times> strseg) option" where
  "strseg_tok_next buf sep s =
     (if snd s < 0 then None
      else
        let i = length (takeWhile (\<lambda>c. c \<noteq> sep) (seg_bytes buf s))
        in Some ((fst s + i + 1, snd s - int i - 1), (fst s, int i)))"

text \<open>
  Modelled from the spec: \<open>strseg_cmp\<close> is defined outside service.c. The spec orders
  the name index lexicographically on the name; the result is negative, zero or
  positive. It is applied to the bytes of two segments of non-negative length.
\<close>

fun strseg_cmp :: "string \<Rightarrow> string \<Rightarrow> int" where
  "strseg_cmp [] [] = 0"
| "strseg_cmp [] (b # bs) = -1"
| "strseg_cmp (a # as) [] = 1"
| "strseg_cmp (a # as) (b # bs) =
     (if a < b then -1 else if b < a then 1 else strseg_cmp as bs)"

section \<open>The service record\<close>

datatype svc_state =
  SVC_STATE_UNDEF | SVC_STATE_DOWN | SVC_STATE_START | SVC_STATE_UP | SVC_STATE_REAPED

type_synonym int64 = "64 word"

text \<open>
  \<open>struct service_s\<close> (service.c, lines 20-43). \<open>name\<close> holds the \<open>name.len\<close> bytes
  of the name and \<open>vars\<close> the \<open>vars.len\<close> bytes of the variable buffer. The two
  intrusive lists are kept as lists of record addresses in the global state;
  \<open>active_linked\<close> and \<open>sigwake_linked\<close> say whether \<open>active_prev_ptr\<close> and
  \<open>sigwake_prev_ptr\<close> are non-null. The two tree nodes live in the global indices.
\<close>

record service =
  state :: svc_state
  name :: string
  vars :: string
  active_linked :: bool
  sigwake_linked :: bool
  pid :: int
  auto_restart :: bool
  sigwake :: bool
  uses_control_event :: bool
  uses_control_cmd :: bool
  uses_control_socket :: bool
  wait_status :: int
  start_time :: int64
  reap_time :: int64
  restart_interval :: int64
  autostart_signals :: "int set"

text \<open>
  What service.c takes from its headers and its collaborators, and the globals that
  \<open>svc_preallocate\<close> fixes before any service exists: \<open>svc_pool\<close> says whether the
  pool is in use and \<open>svc_pool_size_each\<close> is the size of a slot;
  \<open>name_buf_offset\<close> is the offset of \<open>name_buf\<close> in the struct.
\<close>

record config =
  NAME_BUF_SIZE :: int
  FORK_RETRY_DELAY :: int64
  sig_num_by_name :: "string \<Rightarrow> int"
  sig_valid :: "int \<Rightarrow> bool"
  svc_pool :: bool
  svc_pool_size_each :: int
  name_buf_offset :: int

section \<open>The variable store\<close>

text \<open>
  The loop that looks a variable up, written twice in service.c (lines 243-248 in
  \<open>svc_get_var\<close> and lines 269-274 in \<open>svc_set_var\<close>): it returns the value segment
  of the first entry whose key is \<open>k\<close>, if there is one, and the segment that is left
  of the buffer when the loop ends.
\<close>

function find_var :: "string \<Rightarrow> string \<Rightarrow> strseg \<Rightarrow> strseg option \<times> strseg" where
  "find_var buf k tail =
     (if snd tail > 0 then
        (case strseg_tok_next buf NUL tail of
           None \<Rightarrow> (None, tail)
         | Some (tail', oldval) \<Rightarrow>
             (case strseg_tok_next buf (CHR ''='') oldval of
                Some (oldval', key) \<Rightarrow>
                  if strseg_cmp (seg_bytes buf key) k = 0 then (Some oldval', tail')
                  else find_var buf k tail'
              | None \<Rightarrow> find_var buf k tail'))
      else (None, tail))"
  by pat_completeness auto
termination
  by (relation "measure (\<lambda>(buf, k, tail). nat (snd tail))")
     (auto simp: strseg_tok_next_def Let_def split: if_splits)

declare find_var.simps [simp del]

text \<open>\<open>svc_get_var\<close> (service.c, lines 238-250): the value segment, when found.\<close>

definition svc_get_var :: "service \<Rightarrow> string \<Rightarrow> strseg option" where
  "svc_get_var svc k = fst (find_var (vars svc) k (0, int (length (vars svc))))"

text \<open>\<open>memmove\<close>, \<open>memcpy\<close> and a byte store, on a buffer that holds the range.\<close>

definition memmove_buf :: "string \<Rightarrow> nat \<Rightarrow> nat \<Rightarrow> nat \<Rightarrow> string" where
  "memmove_buf b dst src n = take dst b @ take n (drop src b) @ drop (dst + n) b"

definition memcpy_buf :: "string \<Rightarrow> nat \<Rightarrow> string \<Rightarrow> string" where
  "memcpy_buf b dst bytes = take dst b @ bytes @ drop (dst + length bytes) b"

text \<open>
  \<open>svc_set_var\<close> (service.c, lines 259-320), in three parts. \<open>value\<close> is \<open>None\<close>
  for a null pointer; \<open>fnd\<close> is the value segment of the entry found, \<open>tail\<close> what
  the loop left.

  First \<open>sizediff\<close> (lines 275-276).
\<close>

definition set_var_sizediff :: "strseg option \<Rightarrow> string \<Rightarrow> string option \<Rightarrow> int" where
  "set_var_sizediff fnd k new_val =
     (case fnd of
        Some oldval \<Rightarrow>
          (case new_val of
             Some v \<Rightarrow> int (length v) - snd oldval
           | None \<Rightarrow> - (snd oldval + 1 + int (length k) + 1))
      | None \<Rightarrow>
          (case new_val of
             Some v \<Rightarrow> int (length k) + 1 + int (length v) + 1
           | None \<Rightarrow> 0))"

text \<open>
  Then the writes once the size is settled (lines 298-315): the tail moves by
  \<open>sizediff\<close>, a new entry gets its \<open>key=\<close>, the value and its NUL are stored. The
  buffer is worked on at its larger size (the bytes \<open>realloc\<close> adds start as NUL
  here; each is written before the function returns) and ends as its first
  \<open>vars.len\<close> bytes.
\<close>

definition set_var_write ::
  "string \<Rightarrow> strseg option \<Rightarrow> strseg \<Rightarrow> string \<Rightarrow> string option \<Rightarrow> int \<Rightarrow> string" where
  "set_var_write buf fnd tail k new_val sizediff =
     (let b0 = buf @ replicate (nat sizediff) NUL;
          b1 = (if sizediff \<noteq> 0 \<and> snd tail > 0
                then memmove_buf b0 (nat (int (fst tail) + sizediff)) (fst tail) (nat (snd tail))
                else b0);
          b2 = (if fnd = None \<and> new_val \<noteq> None
                then (memcpy_buf b1 (fst tail) k)[fst tail + length k := CHR ''='']
                else b1);
          oldval_data = (case fnd of
                           Some oldval \<Rightarrow> fst oldval
                         | None \<Rightarrow> fst tail + length k + 1);
          b3 = (case new_val of
                  Some v \<Rightarrow> (memcpy_buf b2 oldval_data v)[oldval_data + length v := NUL]
                | None \<Rightarrow> b2)
      in take (nat (int (length buf) + sizediff)) b3)"

text \<open>
  The whole function. \<open>realloc_ok\<close> says whether the call's \<open>realloc\<close> succeeds. The
  result is the returned flag and the record.
\<close>

definition svc_set_var ::
  "config \<Rightarrow> bool \<Rightarrow> service \<Rightarrow> string \<Rightarrow> string option \<Rightarrow> bool \<times> service" where
  "svc_set_var cfg realloc_ok svc k new_val =
     (let buf = vars svc;
          (fnd, tail) = find_var buf k (0, int (length buf));
          sizediff = set_var_sizediff fnd k new_val;
          buf_size = svc_pool_size_each cfg - (name_buf_offset cfg + int (length (name svc)) + 1)
      in
        if sizediff > 0 \<and> svc_pool cfg \<and> int (length buf) + sizediff > buf_size then (False, svc)
        else if sizediff > 0 \<and> \<not> svc_pool cfg \<and> \<not> realloc_ok then (False, svc)
        else (True, svc\<lparr>vars := set_var_write buf fnd tail k new_val sizediff\<rparr>))"

text \<open>
  Where the buffer lies. Without the pool it is a block of its own, resized by
  \<open>realloc\<close>. In the pool it starts inside \<open>name_buf\<close>, right after the name and its
  NUL (\<open>svc_ctor\<close>, line 181), and \<open>svc_set_var\<close> lets it grow up to the end of the
  slot (lines 282-284). \<open>name_buf\<close> has \<open>NAME_BUF_SIZE\<close> bytes and is followed in
  the struct by \<open>name\<close>, \<open>vars\<close> and the other fields (lines 20-43), so a buffer that
  grows past the end of \<open>name_buf\<close> is written over these fields: the access is out
  of the bounds of the array, and what the record holds afterwards is not given by
  service.c. The record of the model keeps \<open>name\<close> and \<open>vars\<close> apart, so it
  describes the store of a pool-backed record only while the buffer lies inside
  \<open>name_buf\<close>. \<open>vars_in_name_buf\<close> says that it does; without the pool it says
  nothing.
\<close>

definition vars_in_name_buf :: "config \<Rightarrow> service \<Rightarrow> bool" where
  "vars_in_name_buf cfg svc =
     (\<not> svc_pool cfg \<or> int (length (name svc)) + 1 + int (length (vars svc)) \<le> NAME_BUF_SIZE cfg)"

text \<open>
  The layout the variable buffer is kept in: entries \<open>key=value\<close>, each ended by a
  NUL byte, back to back. A key holds no \<open>=\<close> and no NUL, a value no NUL.
\<close>

definition pack_var :: "string \<times> string \<Rightarrow> string" where
  "pack_var kv = fst kv @ CHR ''='' # snd kv @ [NUL]"

definition pack_vars :: "(string \<times> string) list \<Rightarrow> string" where
  "pack_vars kvs = concat (map pack_var kvs)"

definition valid_key :: "string \<Rightarrow> bool" where
  "valid_key k = (CHR ''='' \<notin> set k \<and> NUL \<notin> set k)"

definition valid_value :: "string \<Rightarrow> bool" where
  "valid_value v = (NUL \<notin> set v)"

definition valid_vars :: "(string \<times> string) list \<Rightarrow> bool" where
  "valid_vars kvs = (list_all (\<lambda>kv. valid_key (fst kv) \<and> valid_value (snd kv)) kvs
                     \<and> distinct (map fst kvs))"

section \<open>The setters of the record\<close>

text \<open>
  \<open>svc_set_tags\<close> and \<open>svc_set_argv\<close> (service.c, lines 331-346): a value of length
  0 is passed on as a null pointer.
\<close>

definition svc_set_tags :: "config \<Rightarrow> bool \<Rightarrow> service \<Rightarrow> string \<Rightarrow> bool \<times> service" where
  "svc_set_tags cfg realloc_ok svc new_tags =
     svc_set_var cfg realloc_ok svc ''tags'' (if int (length new_tags) \<le> 0 then None else Some new_tags)"

definition svc_set_argv :: "config \<Rightarrow> bool \<Rightarrow> service \<Rightarrow> string \<Rightarrow> bool \<times> service" where
  "svc_set_argv cfg realloc_ok svc new_argv =
     svc_set_var cfg realloc_ok svc ''args'' (if int (length new_argv) \<le> 0 then None else Some new_argv)"

text \<open>
  The getters return \<open>val.data\<close> as a C string: the bytes from there up to the first
  NUL (service.c, lines 322-325, 335-338, 348-351, 395-398).
\<close>

definition c_string_at :: "string \<Rightarrow> nat \<Rightarrow> string" where
  "c_string_at buf off = takeWhile (\<lambda>c. c \<noteq> NUL) (drop off buf)"

definition svc_get_tags :: "service \<Rightarrow> string" where
  "svc_get_tags svc =
     (case svc_get_var svc ''tags'' of Some val \<Rightarrow> c_string_at (vars svc) (fst val) | None \<Rightarrow> [])"

definition svc_get_argv :: "service \<Rightarrow> string" where
  "svc_get_argv svc =
     (case svc_get_var svc ''args'' of Some val \<Rightarrow> c_string_at (vars svc) (fst val) | None \<Rightarrow> [])"

definition fds_default :: string where
  "fds_default = ''null'' @ TAB # ''null'' @ TAB # ''null''"

definition svc_get_fds :: "service \<Rightarrow> string" where
  "svc_get_fds svc =
     (case svc_get_var svc ''fds'' of Some val \<Rightarrow> c_string_at (vars svc) (fst val)
      | None \<Rightarrow> fds_default)"

definition svc_get_triggers :: "service \<Rightarrow> string" where
  "svc_get_triggers svc =
     (case svc_get_var svc ''triggers'' of Some val \<Rightarrow> c_string_at (vars svc) (fst val)
      | None \<Rightarrow> [])"

text \<open>
  The loop of \<open>svc_set_fds\<close> over the tab-separated names (service.c, lines
  373-380), on the three flags \<open>uses_control_event\<close>, \<open>uses_control_cmd\<close> and
  \<open>uses_control_socket\<close>.
\<close>

function fds_loop :: "string \<Rightarrow> strseg \<Rightarrow> bool \<times> bool \<times> bool \<Rightarrow> bool \<times> bool \<times> bool" where
  "fds_loop buf new_fds flags =
     (case strseg_tok_next buf TAB new_fds of
        None \<Rightarrow> flags
      | Some (new_fds', nm) \<Rightarrow>
          (case flags of
             (ev, cmd, sock) \<Rightarrow>
               fds_loop buf new_fds'
                 (if strseg_cmp (seg_bytes buf nm) ''control.event'' = 0 then True else ev,
                  if strseg_cmp (seg_bytes buf nm) ''control.cmd'' = 0 then True else cmd,
                  if strseg_cmp (seg_bytes buf nm) ''control.socket'' = 0 then True else sock)))"
  by pat_completeness auto
termination
  by (relation "measure (\<lambda>(buf, new_fds, flags). nat (snd new_fds + 1))")
     (auto simp: strseg_tok_next_def Let_def split: if_splits)

declare fds_loop.simps [simp del]

text \<open>
  \<open>svc_set_fds\<close> (service.c, lines 357-382). The argument is the \<open>new_fds.len\<close> bytes
  of the new value, so the length is not negative. The result of the
  \<open>svc_set_var\<close> call that clears the variable is not looked at.
\<close>

definition svc_set_fds :: "config \<Rightarrow> bool \<Rightarrow> service \<Rightarrow> string \<Rightarrow> bool \<times> service" where
  "svc_set_fds cfg realloc_ok svc new_fds =
     (let (ok, svc1) =
            (if strseg_cmp new_fds fds_default = 0
             then (True, snd (svc_set_var cfg realloc_ok svc ''fds'' None))
             else svc_set_var cfg realloc_ok svc ''fds'' (Some new_fds))
      in
        if \<not> ok then (False, svc)
        else
          (case fds_loop new_fds (0, int (length new_fds)) (False, False, False) of
             (ev, cmd, sock) \<Rightarrow>
               (True, svc1\<lparr>uses_control_event := ev, uses_control_cmd := cmd,
                            uses_control_socket := sock\<rparr>)))"

text \<open>
  \<open>svc_set_restart_interval\<close> (service.c, lines 388-393); \<open>>>\<close> on an \<open>int64_t\<close> is
  the arithmetic shift.
\<close>

definition svc_set_restart_interval :: "service \<Rightarrow> int64 \<Rightarrow> bool \<times> service" where
  "svc_set_restart_interval svc interval =
     (if signed_drop_bit 32 interval <s 1 then (False, svc)
      else (True, svc\<lparr>restart_interval := interval\<rparr>))"

section \<open>Signal sets\<close>

text \<open>
  A \<open>sigset_t\<close> is the set of its signal numbers. \<open>sigaddset\<close> and \<open>sigismember\<close>
  belong to the C library: they answer \<open>-1\<close> for a number that the platform does
  not take as a signal, and \<open>sig_valid\<close> says which numbers it takes.
\<close>

definition sigaddset :: "config \<Rightarrow> int set \<Rightarrow> int \<Rightarrow> int \<times> int set" where
  "sigaddset cfg sigs signum =
     (if \<not> sig_valid cfg signum then (-1, sigs) else (0, insert signum sigs))"

definition sigismember :: "config \<Rightarrow> int set \<Rightarrow> int \<Rightarrow> int" where
  "sigismember cfg sigs signum =
     (if \<not> sig_valid cfg signum then -1 else if signum \<in> sigs then 1 else 0)"

section \<open>The indices\<close>

type_synonym svc_ptr = nat

text \<open>
  Modelled from the spec: the red-black tree of \<open>Contained_RBTree.h\<close> is not part of
  the sources. The spec calls both indices ordered associative containers with
  insert, prune, exact lookup and ordered next-traversal. Here an index is a binary
  search tree whose nodes carry the key they were added under and the address of the
  record they belong to (\<open>node->Object\<close>); the colours and the rotations, which change
  neither the nodes nor their order, are left out.
\<close>

type_synonym 'k rbtree = "('k \<times> svc_ptr) tree"

text \<open>Modelled from the spec: \<open>RBTree_Add\<close>, insertion below a leaf by the compare function.\<close>

fun RBTree_Add :: "('k \<Rightarrow> 'k \<Rightarrow> int) \<Rightarrow> 'k rbtree \<Rightarrow> svc_ptr \<Rightarrow> 'k \<Rightarrow> 'k rbtree" where
  "RBTree_Add cmp Leaf p key = Node Leaf (key, p) Leaf"
| "RBTree_Add cmp (Node l n r) p key =
     (if cmp key (fst n) < 0 then Node (RBTree_Add cmp l p key) n r
      else Node l n (RBTree_Add cmp r p key))"

fun tree_join :: "'a tree \<Rightarrow> 'a tree \<Rightarrow> 'a tree" where
  "tree_join Leaf r = r"
| "tree_join (Node l a m) r = Node l a (tree_join m r)"

text \<open>Modelled from the spec: \<open>RBTreeNode_Prune\<close>, which takes the record's node out of its tree.\<close>

fun RBTreeNode_Prune :: "svc_ptr \<Rightarrow> 'k rbtree \<Rightarrow> 'k rbtree" where
  "RBTreeNode_Prune p Leaf = Leaf"
| "RBTreeNode_Prune p (Node l n r) =
     (if snd n = p then tree_join (RBTreeNode_Prune p l) (RBTreeNode_Prune p r)
      else Node (RBTreeNode_Prune p l) n (RBTreeNode_Prune p r))"

text \<open>
  Modelled from the spec: \<open>RBTree_Find\<close>, the descent from the root. The result is
  the last node compared with (\<open>Nearest\<close>) and the compare function's answer there
  (\<open>Relation\<close>); \<open>None\<close> stands for a null \<open>Nearest\<close>, on the empty tree.
\<close>

fun RBTree_Find ::
  "('k \<Rightarrow> 'k \<Rightarrow> int) \<Rightarrow> 'k rbtree \<Rightarrow> 'k \<Rightarrow> (('k \<times> svc_ptr) \<times> int) option \<Rightarrow> (('k \<times> svc_ptr) \<times> int) option" where
  "RBTree_Find cmp Leaf key nearest = nearest"
| "RBTree_Find cmp (Node l n r) key nearest =
     (let c = cmp key (fst n)
      in if c = 0 then Some (n, 0)
         else if c < 0 then RBTree_Find cmp l key (Some (n, c))
         else RBTree_Find cmp r key (Some (n, c)))"

text \<open>Modelled from the spec: \<open>RBTreeNode_GetNext\<close>, the node that follows in key order.\<close>

fun next_after :: "svc_ptr \<Rightarrow> ('k \<times> svc_ptr) list \<Rightarrow> ('k \<times> svc_ptr) option" where
  "next_after p [] = None"
| "next_after p (n # ns) =
     (if snd n = p then (case ns of [] \<Rightarrow> None | m # _ \<Rightarrow> Some m) else next_after p ns)"

definition RBTreeNode_GetNext :: "'k rbtree \<Rightarrow> svc_ptr \<Rightarrow> ('k \<times> svc_ptr) option" where
  "RBTreeNode_GetNext t p = next_after p (inorder t)"

text \<open>The two compare functions (service.c, lines 76-86).\<close>

definition svc_by_name_compare :: "string \<Rightarrow> string \<Rightarrow> int" where
  "svc_by_name_compare k node_name = strseg_cmp k node_name"

definition svc_by_pid_compare :: "int \<Rightarrow> int \<Rightarrow> int" where
  "svc_by_pid_compare a b = (if a < b then -1 else if a > b then 1 else 0)"

section \<open>The global state\<close>

text \<open>
  What one attempt to launch a child meets in \<open>svc_do_fork\<close>: whether \<open>ctl_alloc\<close>,
  \<open>socketpair\<close> and \<open>ctl_ctor\<close> succeed, and what \<open>fork\<close> returns in the
  supervisor.
\<close>

record launch_env =
  ctl_alloc_ok :: bool
  socketpair_ok :: bool
  ctl_ctor_ok :: bool
  fork_result :: int

text \<open>
  The globals of service.c (lines 46-61) with the memory that holds the records, and
  what the collaborators hold: the wake clock (\<open>wake->now\<close>, \<open>wake->next\<close>), the
  events of the signal source (signal number, timestamp, count), the calls made to
  \<open>ctl_notify_svc_state\<close>, and the launches: \<open>launch_envs\<close> says how the n-th call of
  \<open>svc_do_fork\<close> fares, \<open>launches\<close> counts these calls and \<open>forks\<close> the calls of
  \<open>fork\<close>.
\<close>

record world =
  services :: "svc_ptr \<Rightarrow> service option"
  svc_list :: "svc_ptr list"
  svc_list_count :: nat
  svc_by_name_index :: "string rbtree"
  svc_by_pid_index :: "int rbtree"
  svc_active_list :: "svc_ptr list"
  svc_sigwake_list :: "svc_ptr list"
  svc_last_signal_ts :: int64
  wake_now :: int64
  wake_next :: int64
  sig_events :: "(int \<times> int64 \<times> int) list"
  notified :: "(string \<times> int64 \<times> int64 \<times> int \<times> int) list"
  launch_envs :: "nat \<Rightarrow> launch_env"
  launches :: nat
  forks :: nat

definition svc_at :: "world \<Rightarrow> svc_ptr \<Rightarrow> service" where
  "svc_at w p = the (services w p)"

definition svc_upd :: "svc_ptr \<Rightarrow> (service \<Rightarrow> service) \<Rightarrow> world \<Rightarrow> world" where
  "svc_upd p f w = w\<lparr>services := (services w)(p \<mapsto> f (svc_at w p))\<rparr>"

text \<open>\<open>svc_notify_state\<close> (service.c, lines 816-819).\<close>

definition svc_notify_state :: "world \<Rightarrow> svc_ptr \<Rightarrow> world" where
  "svc_notify_state w p =
     (let svc = svc_at w p
      in w\<lparr>notified := notified w @
            [(name svc, start_time svc, reap_time svc, wait_status svc, pid svc)]\<rparr>)"

text \<open>
  \<open>svc_set_active\<close> (service.c, lines 535-553): the record goes to the head of the
  list, or is unlinked from it.
\<close>

definition svc_set_active :: "world \<Rightarrow> svc_ptr \<Rightarrow> bool \<Rightarrow> world" where
  "svc_set_active w p activate =
     (if activate \<and> \<not> active_linked (svc_at w p) then
        (svc_upd p (\<lambda>s. s\<lparr>active_linked := True\<rparr>) w)\<lparr>svc_active_list := p # svc_active_list w\<rparr>
      else if \<not> activate \<and> active_linked (svc_at w p) then
        (svc_upd p (\<lambda>s. s\<lparr>active_linked := False\<rparr>) w)
          \<lparr>svc_active_list := remove1 p (svc_active_list w)\<rparr>
      else w)"

text \<open>\<open>svc_set_sigwake\<close> (service.c, lines 436-454).\<close>

definition svc_set_sigwake :: "world \<Rightarrow> svc_ptr \<Rightarrow> bool \<Rightarrow> world" where
  "svc_set_sigwake w p sw =
     (let w1 = svc_upd p (\<lambda>s. s\<lparr>sigwake := sw\<rparr>) w
      in if sw \<and> \<not> sigwake_linked (svc_at w1 p) then
           (svc_upd p (\<lambda>s. s\<lparr>sigwake_linked := True\<rparr>) w1)
             \<lparr>svc_sigwake_list := p # svc_sigwake_list w1\<rparr>
         else if \<not> sw \<and> sigwake_linked (svc_at w1 p) then
           (svc_upd p (\<lambda>s. s\<lparr>sigwake_linked := False\<rparr>) w1)
             \<lparr>svc_sigwake_list := remove1 p (svc_sigwake_list w1)\<rparr>
         else w1)"

text \<open>\<open>svc_change_pid\<close> (service.c, lines 833-844).\<close>

definition svc_change_pid :: "world \<Rightarrow> svc_ptr \<Rightarrow> int \<Rightarrow> world" where
  "svc_change_pid w p new_pid =
     (let w1 = (if pid (svc_at w p) \<noteq> 0
                then w\<lparr>svc_by_pid_index := RBTreeNode_Prune p (svc_by_pid_index w)\<rparr>
                else w);
          w2 = svc_upd p (\<lambda>s. s\<lparr>pid := new_pid\<rparr>) w1
      in if pid (svc_at w2 p) \<noteq> 0
         then w2\<lparr>svc_by_pid_index :=
                   RBTree_Add svc_by_pid_compare (svc_by_pid_index w2) p (pid (svc_at w2 p))\<rparr>
         else w2)"

text \<open>
  Modelled from the spec: \<open>sig_get_new_events\<close> belongs to the signal source, which
  is not part of the sources. The spec gives it as \<open>next_event(after_ts)\<close>, which
  answers an event \<open>(signum, ts, count)\<close> or the end: here the first event of the
  source whose timestamp is after \<open>since\<close>.
\<close>

definition sig_get_new_events ::
  "(int \<times> int64 \<times> int) list \<Rightarrow> int64 \<Rightarrow> (int \<times> int64 \<times> int) option" where
  "sig_get_new_events evs since = find (\<lambda>e. since <s fst (snd e)) evs"

text \<open>The loop of \<open>svc_check_sigwake\<close> (service.c, lines 463-466).\<close>

function check_sigwake_loop ::
  "config \<Rightarrow> (int \<times> int64 \<times> int) list \<Rightarrow> int set \<Rightarrow> int64 \<Rightarrow> bool" where
  "check_sigwake_loop cfg evs sigs sig_ts =
     (case sig_get_new_events evs sig_ts of
        None \<Rightarrow> False
      | Some (signum, ts, n) \<Rightarrow>
          if sigismember cfg sigs signum \<noteq> 0 then True
          else check_sigwake_loop cfg evs sigs ts)"
  by pat_completeness auto
termination
proof (relation "measure (\<lambda>(cfg, evs, sigs, sig_ts). length (filter (\<lambda>e. sig_ts <s fst (snd e)) evs))")
  show "wf (measure (\<lambda>(cfg, evs, sigs, sig_ts). length (filter (\<lambda>e. sig_ts <s fst (snd e)) evs)))"
    by simp
next
  fix cfg :: config and evs :: "(int \<times> int64 \<times> int) list" and sigs :: "int set" and sig_ts :: int64
    and x2 :: "int \<times> int64 \<times> int" and signum :: int and y :: "int64 \<times> int" and ts :: int64 and n :: int
  assume f: "sig_get_new_events evs sig_ts = Some x2" and x2: "(signum, y) = x2" and y: "(ts, n) = y"
  let ?P = "\<lambda>e. sig_ts <s fst (snd e)" and ?Q = "\<lambda>e. ts <s fst (snd e)"
  have found: "find P xs = Some x \<Longrightarrow> x \<in> set xs \<and> P x"
    for P and xs :: "(int \<times> int64 \<times> int) list" and x
    by (induction xs) (auto split: if_splits)
  from f have "x2 \<in> set evs \<and> sig_ts <s fst (snd x2)"
    unfolding sig_get_new_events_def by (rule found)
  then have mem: "x2 \<in> set evs" and later: "sig_ts <s ts"
    using x2 y by auto
  have sub: "filter ?Q evs = filter ?Q (filter ?P evs)"
    using later by (auto intro!: filter_cong)
  have "x2 \<in> set (filter ?P evs)" "\<not> ?Q x2"
    using mem later x2 y by auto
  then have "length (filter ?Q (filter ?P evs)) < length (filter ?P evs)"
    by (rule length_filter_less)
  then have "length (filter ?Q evs) < length (filter ?P evs)"
    by (simp only: sub [symmetric])
  then show "((cfg, evs, sigs, ts), (cfg, evs, sigs, sig_ts))
      \<in> measure (\<lambda>(cfg, evs, sigs, sig_ts). length (filter (\<lambda>e. sig_ts <s fst (snd e)) evs))"
    by simp
qed

declare check_sigwake_loop.simps [simp del]

text \<open>\<open>svc_check_sigwake\<close> (service.c, lines 456-467).\<close>

definition svc_check_sigwake :: "config \<Rightarrow> world \<Rightarrow> svc_ptr \<Rightarrow> bool" where
  "svc_check_sigwake cfg w p =
     (if \<not> sigwake (svc_at w p) then False
      else check_sigwake_loop cfg (sig_events w) (autostart_signals (svc_at w p)) 0)"

section \<open>The state machine\<close>

text \<open>
  Times are \<open>int64_t\<close> values, and service.c compares two of them by the sign of
  their difference (\<open>when - wake->now > 0\<close>). The difference and the sums
  (\<open>wake->now + svc->restart_interval\<close>) are signed: C defines them when the
  mathematical result fits into 64 bits and leaves the behaviour undefined otherwise.
  \<open>diff_fits\<close> and \<open>sum_fits\<close> say that the result fits. The model takes a
  difference in the integers, where it is what C defines whenever \<open>diff_fits\<close> holds;
  the properties of the state machine are stated for times within these bounds.
\<close>

definition diff_fits :: "int64 \<Rightarrow> int64 \<Rightarrow> bool" where
  "diff_fits a b = (- (2 ^ 63) \<le> sint a - sint b \<and> sint a - sint b < 2 ^ 63)"

definition sum_fits :: "int64 \<Rightarrow> int64 \<Rightarrow> bool" where
  "sum_fits a b = (- (2 ^ 63) \<le> sint a + sint b \<and> sint a + sint b < 2 ^ 63)"

text \<open>
  The time \<open>svc_handle_start\<close> settles on (service.c, lines 475-481): \<open>when\<close> if
  \<open>when - wake->now > 0\<close>, else \<open>wake->now\<close>.
\<close>

definition later_of :: "int64 \<Rightarrow> int64 \<Rightarrow> int64" where
  "later_of when_ts now = (if 0 < sint when_ts - sint now then when_ts else now)"

text \<open>\<open>svc_handle_start\<close> (service.c, lines 469-491).\<close>

definition svc_handle_start :: "world \<Rightarrow> svc_ptr \<Rightarrow> int64 \<Rightarrow> bool \<times> world" where
  "svc_handle_start w p when_ts =
     (if state (svc_at w p) \<noteq> SVC_STATE_DOWN \<and> state (svc_at w p) \<noteq> SVC_STATE_START
      then (False, w)
      else
        let when1 = later_of when_ts (wake_now w);
            w1 = svc_upd p (\<lambda>s. s\<lparr>state := SVC_STATE_START\<rparr>) w;
            w2 = svc_upd p (\<lambda>s. s\<lparr>start_time := (if when1 = 0 then 1 else when1)\<rparr>) w1;
            w3 = svc_change_pid w2 p 0;
            w4 = svc_upd p (\<lambda>s. s\<lparr>reap_time := 0\<rparr>) w3;
            w5 = svc_upd p (\<lambda>s. s\<lparr>wait_status := -1\<rparr>) w4;
            w6 = svc_set_active w5 p True;
            w7 = svc_notify_state w6 p
        in (True, w7\<lparr>wake_next := wake_now w7\<rparr>))"

text \<open>\<open>svc_cancel_start\<close> (service.c, lines 493-504).\<close>

definition svc_cancel_start :: "world \<Rightarrow> svc_ptr \<Rightarrow> bool \<times> world" where
  "svc_cancel_start w p =
     (if state (svc_at w p) \<noteq> SVC_STATE_START then (False, w)
      else
        let w1 = svc_upd p (\<lambda>s. s\<lparr>state := SVC_STATE_DOWN\<rparr>) w;
            w2 = svc_upd p (\<lambda>s. s\<lparr>start_time := 0\<rparr>) w1;
            w3 = svc_set_active w2 p False
        in (True, svc_notify_state w3 p))"

text \<open>\<open>svc_handle_reaped\<close> (service.c, lines 510-520).\<close>

definition svc_handle_reaped :: "world \<Rightarrow> svc_ptr \<Rightarrow> int \<Rightarrow> world" where
  "svc_handle_reaped w p wstat =
     (if state (svc_at w p) = SVC_STATE_UP then
        let w1 = svc_upd p (\<lambda>s. s\<lparr>wait_status := wstat\<rparr>) w;
            w2 = svc_upd p (\<lambda>s. s\<lparr>state := SVC_STATE_REAPED\<rparr>) w1;
            w3 = svc_upd p (\<lambda>s. s\<lparr>reap_time := wake_now w2\<rparr>) w2;
            w4 = svc_set_active w3 p True
        in w4\<lparr>wake_next := wake_now w4\<rparr>
      else w)"

text \<open>
  \<open>svc_do_fork\<close> (service.c, lines 641-723), as the supervisor sees it: the
  controller and the socket pair are wanted when one of the \<open>uses_control\<close> flags is
  set, and each step can fail before \<open>fork\<close> is reached. Sockets and controllers
  are not kept in the state. The child's side (\<open>fork\<close> returning 0, then
  \<open>svc_do_exec\<close>) does not return to the state machine and is not followed.
\<close>

definition svc_do_fork :: "world \<Rightarrow> svc_ptr \<Rightarrow> bool \<times> world" where
  "svc_do_fork w p =
     (let svc = svc_at w p;
          env = launch_envs w (launches w);
          w1 = w\<lparr>launches := Suc (launches w)\<rparr>;
          uses_ctl = (uses_control_socket svc \<or> uses_control_event svc \<or> uses_control_cmd svc)
      in
        if uses_ctl \<and> \<not> ctl_alloc_ok env then (False, w1)
        else if uses_ctl \<and> \<not> socketpair_ok env then (False, w1)
        else if uses_ctl \<and> \<not> ctl_ctor_ok env then (False, w1)
        else
          let w2 = w1\<lparr>forks := Suc (forks w1)\<rparr>
          in if fork_result env < 0 then (False, w2)
             else (True, svc_change_pid w2 p (fork_result env)))"

text \<open>
  The case \<open>SVC_STATE_REAPED\<close> of \<open>svc_run\<close> up to its \<open>goto\<close> (service.c, lines
  618-626).
\<close>

definition svc_run_reaped :: "config \<Rightarrow> world \<Rightarrow> svc_ptr \<Rightarrow> world" where
  "svc_run_reaped cfg w p =
     (let w1 = svc_notify_state w p;
          w2 = svc_upd p (\<lambda>s. s\<lparr>state := SVC_STATE_DOWN\<rparr>) w1
      in if auto_restart (svc_at w2 p) \<or> svc_check_sigwake cfg w2 p then
           svc_notify_state
             (snd (svc_handle_start w2 p
                (if sint (reap_time (svc_at w2 p)) - sint (start_time (svc_at w2 p))
                      < sint (restart_interval (svc_at w2 p))
                 then wake_now w2 + restart_interval (svc_at w2 p)
                 else wake_now w2))) p
         else w2)"

text \<open>
  The case \<open>SVC_STATE_START\<close> while the start time is ahead (service.c, lines
  593-599).
\<close>

definition svc_run_waiting :: "world \<Rightarrow> svc_ptr \<Rightarrow> world" where
  "svc_run_waiting w p =
     (let w1 = (if sint (start_time (svc_at w p)) - sint (wake_next w) < 0
                then w\<lparr>wake_next := start_time (svc_at w p)\<rparr>
                else w)
      in svc_set_active w1 p True)"

text \<open>The service is started (service.c, lines 610-614, falling into the case \<open>SVC_STATE_UP\<close>).\<close>

definition svc_run_started :: "world \<Rightarrow> svc_ptr \<Rightarrow> world" where
  "svc_run_started w p =
     (let w1 = svc_upd p (\<lambda>s. s\<lparr>start_time := (if wake_now w \<noteq> 0 then wake_now w else 1)\<rparr>) w;
          w2 = svc_upd p (\<lambda>s. s\<lparr>state := SVC_STATE_UP\<rparr>) w1;
          w3 = svc_notify_state w2 p
      in svc_set_active w3 p False)"

text \<open>The launch failed (service.c, line 605).\<close>

definition svc_run_retry :: "config \<Rightarrow> world \<Rightarrow> svc_ptr \<Rightarrow> world" where
  "svc_run_retry cfg w p = snd (svc_handle_start w p (wake_now w + FORK_RETRY_DELAY cfg))"

text \<open>
  \<open>svc_run\<close> (service.c, lines 587-639). Each \<open>goto re_switch_state\<close> is a recursive
  call; \<open>None\<close> is a call that does not return: the assertion on
  \<open>SVC_STATE_UNDEF\<close>, or a loop that never ends.
\<close>

partial_function (option) svc_run :: "config \<Rightarrow> world \<Rightarrow> svc_ptr \<Rightarrow> world option" where
  "svc_run cfg w p =
     (case state (svc_at w p) of
        SVC_STATE_START \<Rightarrow>
          if 0 < sint (start_time (svc_at w p)) - sint (wake_now w) then Some (svc_run_waiting w p)
          else
            if \<not> fst (svc_do_fork w p) then
              svc_run cfg (svc_run_retry cfg (snd (svc_do_fork w p)) p) p
            else Some (svc_run_started (snd (svc_do_fork w p)) p)
      | SVC_STATE_UP \<Rightarrow> Some (svc_set_active w p False)
      | SVC_STATE_REAPED \<Rightarrow> svc_run cfg (svc_run_reaped cfg w p) p
      | SVC_STATE_DOWN \<Rightarrow> Some (svc_set_active w p False)
      | SVC_STATE_UNDEF \<Rightarrow> None)"

section \<open>Triggers\<close>

text \<open>
  The loop of \<open>svc_set_triggers\<close> that turns the triggers into flags (service.c,
  lines 408-418), on \<open>autostart\<close>, \<open>sigs\<close> and \<open>enable_sigs\<close>; \<open>None\<close> is the
  \<open>return false\<close> inside it.
\<close>

function triggers_loop ::
  "config \<Rightarrow> string \<Rightarrow> strseg \<Rightarrow> bool \<times> int set \<times> bool \<Rightarrow> (bool \<times> int set \<times> bool) option" where
  "triggers_loop cfg buf lst acc =
     (case strseg_tok_next buf TAB lst of
        None \<Rightarrow> Some acc
      | Some (lst', trigger) \<Rightarrow>
          if snd trigger > 0 then
            (case acc of
               (autostart, sigs, enable_sigs) \<Rightarrow>
                 if strseg_cmp (seg_bytes buf trigger) ''always'' = 0
                 then triggers_loop cfg buf lst' (True, sigs, enable_sigs)
                 else if sig_num_by_name cfg (seg_bytes buf trigger) > 0 then
                   (case sigaddset cfg sigs (sig_num_by_name cfg (seg_bytes buf trigger)) of
                      (r, sigs') \<Rightarrow>
                        if r < 0 then None else triggers_loop cfg buf lst' (autostart, sigs', True))
                 else None)
          else Some acc)"
  by pat_completeness auto
termination
  by (relation "measure (\<lambda>(cfg, buf, lst, acc). nat (snd lst + 1))")
     (auto simp: strseg_tok_next_def Let_def split: if_splits)

declare triggers_loop.simps [simp del]

text \<open>
  \<open>svc_set_triggers\<close> (service.c, lines 400-434). The argument is the
  \<open>triggers_tsv.len\<close> bytes of the new value.
\<close>

definition svc_set_triggers :: "config \<Rightarrow> bool \<Rightarrow> world \<Rightarrow> svc_ptr \<Rightarrow> string \<Rightarrow> bool \<times> world" where
  "svc_set_triggers cfg realloc_ok w p triggers_tsv =
     (case triggers_loop cfg triggers_tsv (0, int (length triggers_tsv)) (False, {}, False) of
        None \<Rightarrow> (False, w)
      | Some (autostart, sigs, enable_sigs) \<Rightarrow>
          (case svc_set_var cfg realloc_ok (svc_at w p) ''triggers''
                  (if int (length triggers_tsv) \<le> 0 then None else Some triggers_tsv) of
             (ok, svc1) \<Rightarrow>
               if \<not> ok then (False, w)
               else
                 let w1 = svc_upd p (\<lambda>s. svc1) w;
                     w2 = svc_upd p (\<lambda>s. s\<lparr>auto_restart := autostart\<rparr>) w1;
                     w3 = svc_upd p (\<lambda>s. s\<lparr>autostart_signals := sigs\<rparr>) w2;
                     w4 = svc_set_sigwake w3 p enable_sigs
                 in if auto_restart (svc_at w4 p) \<or> svc_check_sigwake cfg w4 p
                    then (True, snd (svc_handle_start w4 p (wake_now w4)))
                    else (True, w4)))"

section \<open>Creating, finding and deleting records\<close>

text \<open>
  \<open>svc_ctor\<close> (service.c, lines 168-193): the record is zeroed, set to
  \<open>SVC_STATE_DOWN\<close>, named, and added to the name index.
\<close>

definition new_service :: "string \<Rightarrow> service" where
  "new_service nm =
     \<lparr>state = SVC_STATE_DOWN, name = nm, vars = [], active_linked = False,
      sigwake_linked = False, pid = 0, auto_restart = False, sigwake = False,
      uses_control_event = False, uses_control_cmd = False,
      uses_control_socket = False, wait_status = 0, start_time = 0, reap_time = 0,
      restart_interval = 0, autostart_signals = {}\<rparr>"

definition svc_ctor :: "world \<Rightarrow> svc_ptr \<Rightarrow> string \<Rightarrow> world" where
  "svc_ctor w p nm =
     (let w1 = w\<lparr>services := (services w)(p \<mapsto> new_service nm)\<rparr>
      in w1\<lparr>svc_by_name_index := RBTree_Add svc_by_name_compare (svc_by_name_index w1) p nm\<rparr>)"

text \<open>
  \<open>svc_new\<close> (service.c, lines 124-145). \<open>svc_list\<close> is the whole vector, so
  \<open>svc_list_limit\<close> is its length; with the pool it holds the slots. \<open>resize_ok\<close>
  says whether \<open>svc_list_resize\<close> succeeds and \<open>malloc_result\<close> what \<open>malloc\<close>
  returns (\<open>None\<close> for null; never the address of a live record). The entries that
  \<open>realloc\<close> adds to the vector are written before they are read; they start as 0.
\<close>

definition svc_new ::
  "config \<Rightarrow> world \<Rightarrow> string \<Rightarrow> bool \<Rightarrow> svc_ptr option \<Rightarrow> svc_ptr option \<times> world" where
  "svc_new cfg w nm resize_ok malloc_result =
     (if svc_list_count w \<ge> length (svc_list w) \<and> (svc_pool cfg \<or> \<not> resize_ok) then (None, w)
      else
        let w1 = (if svc_list_count w \<ge> length (svc_list w)
                  then w\<lparr>svc_list := svc_list w @ replicate 32 0\<rparr> else w)
        in if svc_pool cfg then
             (let p = svc_list w1 ! svc_list_count w1
              in (Some p, svc_ctor (w1\<lparr>svc_list_count := Suc (svc_list_count w1)\<rparr>) p nm))
           else
             (case malloc_result of
                None \<Rightarrow> (None, w1)
              | Some p \<Rightarrow>
                  (Some p,
                   svc_ctor (w1\<lparr>svc_list := (svc_list w1)[svc_list_count w1 := p],
                                svc_list_count := Suc (svc_list_count w1)\<rparr>) p nm)))"

text \<open>\<open>svc_by_name\<close> (service.c, lines 821-831).\<close>

definition svc_by_name ::
  "config \<Rightarrow> world \<Rightarrow> string \<Rightarrow> bool \<Rightarrow> bool \<Rightarrow> svc_ptr option \<Rightarrow> svc_ptr option \<times> world" where
  "svc_by_name cfg w nm create resize_ok malloc_result =
     (let s = RBTree_Find svc_by_name_compare (svc_by_name_index w) nm None
      in if s \<noteq> None \<and> snd (the s) = 0 then (Some (snd (fst (the s))), w)
         else if create \<and> svc_check_name (NAME_BUF_SIZE cfg) nm
         then svc_new cfg w nm resize_ok malloc_result
         else (None, w))"

text \<open>\<open>svc_by_pid\<close> (service.c, lines 846-851).\<close>

definition svc_by_pid :: "world \<Rightarrow> int \<Rightarrow> svc_ptr option" where
  "svc_by_pid w child =
     (let s = RBTree_Find svc_by_pid_compare (svc_by_pid_index w) child None
      in if s \<noteq> None \<and> snd (the s) = 0 then Some (snd (fst (the s))) else None)"

text \<open>\<open>svc_dtor\<close> (service.c, lines 195-204).\<close>

definition svc_dtor :: "world \<Rightarrow> svc_ptr \<Rightarrow> world" where
  "svc_dtor w p =
     (let w1 = svc_set_active w p False;
          w2 = svc_set_sigwake w1 p False;
          w3 = (if pid (svc_at w2 p) \<noteq> 0
                then w2\<lparr>svc_by_pid_index := RBTreeNode_Prune p (svc_by_pid_index w2)\<rparr>
                else w2)
      in w3\<lparr>svc_by_name_index := RBTreeNode_Prune p (svc_by_name_index w3)\<rparr>)"

text \<open>The search of \<open>svc_delete\<close> for the record in the vector (service.c, lines 152-153).\<close>

fun svc_list_find :: "svc_ptr \<Rightarrow> svc_ptr list \<Rightarrow> nat \<Rightarrow> nat option" where
  "svc_list_find p [] i = None"
| "svc_list_find p (x # xs) i = (if x = p then Some i else svc_list_find p xs (Suc i))"

text \<open>
  \<open>svc_delete\<close> (service.c, lines 147-165). The record leaves the memory of live
  records when its place in the vector is given up: freed, or with the pool handed
  back as a free slot.
\<close>

definition svc_delete :: "config \<Rightarrow> world \<Rightarrow> svc_ptr \<Rightarrow> world" where
  "svc_delete cfg w p =
     (let w1 = svc_dtor w p
      in case svc_list_find p (take (svc_list_count w1) (svc_list w1)) 0 of
           None \<Rightarrow> w1
         | Some i \<Rightarrow>
             (let n = svc_list_count w1 - 1;
                  l1 = (svc_list w1)[i := svc_list w1 ! n];
                  l2 = l1[n := (if svc_pool cfg then p else 0)]
              in w1\<lparr>svc_list := l2, svc_list_count := n,
                     services := (services w1)(p := None)\<rparr>))"

text \<open>\<open>svc_iter_next\<close> (service.c, lines 853-871); \<open>svc\<close> is \<open>None\<close> for a null pointer.\<close>

definition svc_iter_next :: "world \<Rightarrow> svc_ptr option \<Rightarrow> string \<Rightarrow> svc_ptr option" where
  "svc_iter_next w svc from_name =
     map_option snd
       (case svc of
          Some p \<Rightarrow> RBTreeNode_GetNext (svc_by_name_index w) p
        | None \<Rightarrow>
            (case RBTree_Find svc_by_name_compare (svc_by_name_index w) from_name None of
               None \<Rightarrow> None
             | Some (nearest, relation) \<Rightarrow>
                 if relation < 0 then Some nearest
                 else RBTreeNode_GetNext (svc_by_name_index w) (snd nearest)))"

section \<open>Tab-separated lists, as the claims speak of them\<close>

text \<open>
  The tokens of a separated list: the pieces between the separators, empty ones
  included. This follows the words of the spec (``tab-separated list'', ``token''),
  not the code; the loops of the code are compared with it below.
\<close>

fun split_on :: "char \<Rightarrow> string \<Rightarrow> string list" where
  "split_on sep [] = [[]]"
| "split_on sep (c # cs) =
     (if c = sep then [] # split_on sep cs
      else (case split_on sep cs of [] \<Rightarrow> [[c]] | t # ts \<Rightarrow> (c # t) # ts))"

text \<open>
  The tokens that \<open>svc_set_triggers\<close> looks at are those before the first empty one
  (its loop ends on \<open>trigger.len > 0\<close>).
\<close>

definition parsed_tokens :: "string \<Rightarrow> string list" where
  "parsed_tokens s = takeWhile (\<lambda>t. t \<noteq> []) (split_on TAB s)"

text \<open>
  What the body of that loop (service.c, lines 409-417) does with one token, and the
  loop over a list of tokens; \<open>None\<close> is the \<open>return false\<close>.
\<close>

definition trigger_step ::
  "config \<Rightarrow> bool \<times> int set \<times> bool \<Rightarrow> string \<Rightarrow> (bool \<times> int set \<times> bool) option" where
  "trigger_step cfg acc t =
     (case acc of
        (autostart, sigs, enable_sigs) \<Rightarrow>
          if strseg_cmp t ''always'' = 0 then Some (True, sigs, enable_sigs)
          else if sig_num_by_name cfg t > 0 then
            (case sigaddset cfg sigs (sig_num_by_name cfg t) of
               (r, sigs') \<Rightarrow> if r < 0 then None else Some (autostart, sigs', True))
          else None)"

fun triggers_fold ::
  "config \<Rightarrow> string list \<Rightarrow> bool \<times> int set \<times> bool \<Rightarrow> (bool \<times> int set \<times> bool) option" where
  "triggers_fold cfg [] acc = Some acc"
| "triggers_fold cfg (t # ts) acc =
     (case trigger_step cfg acc t of None \<Rightarrow> None | Some acc' \<Rightarrow> triggers_fold cfg ts acc')"

section \<open>Reachable states\<close>

text \<open>
  The claims about the indices speak of the reachable states of the core, of the
  operations on it and of its live records. A record is live while its address is in
  the memory of the state (\<open>services\<close>). The operations are: creating a service by
  name (\<open>malloc\<close> returning null or an address that is not in use), deleting a live
  record, \<open>svc_handle_start\<close>, \<open>svc_handle_reaped\<close> and \<open>svc_change_pid\<close> on a
  live record, and a run of the state machine on a live record that returns.
\<close>

inductive operation :: "config \<Rightarrow> world \<Rightarrow> world \<Rightarrow> bool" for cfg :: config where
  op_create:
    "(\<forall>p. malloc_result = Some p \<longrightarrow> services w p = None) \<Longrightarrow>
     operation cfg w (snd (svc_by_name cfg w nm True resize_ok malloc_result))"
| op_delete:
    "services w p \<noteq> None \<Longrightarrow> operation cfg w (svc_delete cfg w p)"
| op_start:
    "services w p \<noteq> None \<Longrightarrow> operation cfg w (snd (svc_handle_start w p when_ts))"
| op_reaped:
    "services w p \<noteq> None \<Longrightarrow> operation cfg w (svc_handle_reaped w p wstat)"
| op_change_pid:
    "services w p \<noteq> None \<Longrightarrow> operation cfg w (svc_change_pid w p new_pid)"
| op_run:
    "services w p \<noteq> None \<Longrightarrow> svc_run cfg w p = Some w' \<Longrightarrow> operation cfg w w'"

text \<open>
  The reachable states are those that the operations make from a core without
  services, together with \<open>svc_cancel_start\<close>, the setters (as long as the buffer of a
  pool-backed record stays inside \<open>name_buf\<close>), and what the main loop and the signal
  source do to the clock, the wake deadline and the signal events.
\<close>

inductive reachable :: "config \<Rightarrow> world \<Rightarrow> bool" for cfg :: config where
  reach_init:
    "services w = Map.empty \<Longrightarrow> svc_list_count w = 0 \<Longrightarrow> svc_by_name_index w = Leaf \<Longrightarrow>
     svc_by_pid_index w = Leaf \<Longrightarrow> svc_active_list w = [] \<Longrightarrow> svc_sigwake_list w = [] \<Longrightarrow>
     (svc_pool cfg \<longrightarrow> distinct (svc_list w)) \<Longrightarrow> reachable cfg w"
| reach_op:
    "reachable cfg w \<Longrightarrow> operation cfg w w' \<Longrightarrow> reachable cfg w'"
| reach_cancel:
    "reachable cfg w \<Longrightarrow> services w p \<noteq> None \<Longrightarrow> reachable cfg (snd (svc_cancel_start w p))"
| reach_triggers:
    "reachable cfg w \<Longrightarrow> services w p \<noteq> None \<Longrightarrow>
     vars_in_name_buf cfg (svc_at (snd (svc_set_triggers cfg realloc_ok w p triggers_tsv)) p) \<Longrightarrow>
     reachable cfg (snd (svc_set_triggers cfg realloc_ok w p triggers_tsv))"
| reach_fds:
    "reachable cfg w \<Longrightarrow> services w p \<noteq> None \<Longrightarrow>
     vars_in_name_buf cfg (snd (svc_set_fds cfg realloc_ok (svc_at w p) new_fds)) \<Longrightarrow>
     reachable cfg (svc_upd p (\<lambda>s. snd (svc_set_fds cfg realloc_ok s new_fds)) w)"
| reach_tags:
    "reachable cfg w \<Longrightarrow> services w p \<noteq> None \<Longrightarrow>
     vars_in_name_buf cfg (snd (svc_set_tags cfg realloc_ok (svc_at w p) new_tags)) \<Longrightarrow>
     reachable cfg (svc_upd p (\<lambda>s. snd (svc_set_tags cfg realloc_ok s new_tags)) w)"
| reach_argv:
    "reachable cfg w \<Longrightarrow> services w p \<noteq> None \<Longrightarrow>
     vars_in_name_buf cfg (snd (svc_set_argv cfg realloc_ok (svc_at w p) new_argv)) \<Longrightarrow>
     reachable cfg (svc_upd p (\<lambda>s. snd (svc_set_argv cfg realloc_ok s new_argv)) w)"
| reach_interval:
    "reachable cfg w \<Longrightarrow> services w p \<noteq> None \<Longrightarrow>
     reachable cfg (svc_upd p (\<lambda>s. snd (svc_set_restart_interval s interval)) w)"
| reach_clock:
    "reachable cfg w \<Longrightarrow> reachable cfg (w\<lparr>wake_now := now, wake_next := next\<rparr>)"
| reach_signals:
    "reachable cfg w \<Longrightarrow> reachable cfg (w\<lparr>sig_events := evs, svc_last_signal_ts := ts\<rparr>)"

text \<open>
  What holds of the memory and the two indices in every reachable state: the live
  records are those of the first \<open>svc_list_count\<close> entries of the vector, each once
  (and with the pool the slots of the vector are all different); the nodes of the name
  index belong to the live records, one to each, carry the name of their record and
  are in the order of the names; the nodes of the PID index belong to the live records
  whose \<open>pid\<close> is not 0, one to each.
\<close>

definition index_inv :: "config \<Rightarrow> world \<Rightarrow> bool" where
  "index_inv cfg w =
     (dom (services w) = set (take (svc_list_count w) (svc_list w))
      \<and> svc_list_count w \<le> length (svc_list w)
      \<and> distinct (take (svc_list_count w) (svc_list w))
      \<and> (svc_pool cfg \<longrightarrow> distinct (svc_list w))
      \<and> distinct (map snd (inorder (svc_by_name_index w)))
      \<and> snd ` set (inorder (svc_by_name_index w)) = dom (services w)
      \<and> (\<forall>n \<in> set (inorder (svc_by_name_index w)). name (svc_at w (snd n)) = fst n)
      \<and> sorted_wrt (<) (map fst (inorder (svc_by_name_index w)))
      \<and> distinct (map snd (inorder (svc_by_pid_index w)))
      \<and> snd ` set (inorder (svc_by_pid_index w))
          = {p \<in> dom (services w). pid (svc_at w p) \<noteq> 0})"

text \<open>How many nodes of an index belong to the record at \<open>p\<close>.\<close>

definition index_entries :: "'k rbtree \<Rightarrow> svc_ptr \<Rightarrow> nat" where
  "index_entries t p = length (filter (\<lambda>n. snd n = p) (inorder t))"

section \<open>Sample data\<close>

text \<open>
  A configuration and a state to run the definitions on: names of up to 63 bytes,
  a retry delay of ten seconds, two signal names, the signal numbers 1 to 64 without
  32 and 33, no pool.
\<close>

definition cfg0 :: config where
  "cfg0 = \<lparr>NAME_BUF_SIZE = 64, FORK_RETRY_DELAY = 0xA00000000,
            sig_num_by_name = (\<lambda>s. if s = ''SIGHUP'' then 1 else if s = ''SIGINT'' then 2 else 0),
            sig_valid = (\<lambda>n. 1 \<le> n \<and> n \<le> 64 \<and> n \<noteq> 32 \<and> n \<noteq> 33), svc_pool = False, svc_pool_size_each = 0, name_buf_offset = 8\<rparr>"

text \<open>The same with a pool whose slots leave 32 bytes to the variables of a service named \<open>web\<close>.\<close>

definition cfg_pool :: config where
  "cfg_pool = cfg0\<lparr>svc_pool := True, svc_pool_size_each := 44\<rparr>"

text \<open>A value of 40 bytes, more than such a slot holds next to a key.\<close>

definition long_value :: string where
  "long_value = ''/usr/local/libexec/web/bin/server-daemon''"

definition launch_ok :: launch_env where
  "launch_ok = \<lparr>ctl_alloc_ok = True, socketpair_ok = True, ctl_ctor_ok = True, fork_result = 100\<rparr>"

definition world0 :: world where
  "world0 = \<lparr>services = Map.empty, svc_list = [], svc_list_count = 0,
              svc_by_name_index = Leaf, svc_by_pid_index = Leaf,
              svc_active_list = [], svc_sigwake_list = [], svc_last_signal_ts = 0,
              wake_now = 0x100000000, wake_next = 0xC800000000, sig_events = [],
              notified = [], launch_envs = (\<lambda>n. launch_ok), launches = 0, forks = 0\<rparr>"


text \<open>
  A record named \<open>web\<close> whose buffer holds \<open>fds=a\<close> and a second entry \<open>fds=b\<close>:
  what \<open>svc_set_fds\<close> leaves on a fresh record for the value \<open>a NUL fds=b\<close>.
\<close>

definition svc_fds_twice :: service where
  "svc_fds_twice = (new_service ''web'')\<lparr>vars := ''fds=a'' @ NUL # ''fds=b'' @ [NUL]\<rparr>"

text \<open>A record named \<open>web\<close> whose \<open>fds\<close> are \<open>null\<close> and \<open>control.cmd\<close>.\<close>

definition svc_with_fds :: service where
  "svc_with_fds = (new_service ''web'')\<lparr>vars := ''fds=null'' @ TAB # ''control.cmd'' @ [NUL],
                                           uses_control_cmd := True\<rparr>"

text \<open>
  The state after \<open>svc_by_name("web", create)\<close> on the empty state, with \<open>malloc\<close>
  returning the address 1.
\<close>

definition world1 :: world where
  "world1 = world0\<lparr>services := [1 \<mapsto> new_service ''web''], svc_list := 1 # replicate 31 0,
                     svc_list_count := 1,
                     svc_by_name_index := Node Leaf (''web'', 1) Leaf\<rparr>"

text \<open>
  The record \<open>web\<close> with the trigger \<open>always\<close>, started at the first second and
  reaped at the third, the clock still at the third second, the restart interval
  still 0.
\<close>

definition world_reaped :: world where
  "world_reaped =
     world1\<lparr>services := [1 \<mapsto> (new_service ''web'')
                 \<lparr>state := SVC_STATE_REAPED, vars := ''triggers=always'' @ [NUL],
                  active_linked := True, pid := 100, auto_restart := True,
                  start_time := 0x100000000, reap_time := 0x300000000\<rparr>],
             svc_by_pid_index := Node Leaf (100, 1) Leaf, svc_active_list := [1],
             wake_now := 0x300000000, wake_next := 0x300000000, launches := 1, forks := 1\<rparr>"

text \<open>The same with a restart interval of ten seconds.\<close>

definition world_reaped_delay :: world where
  "world_reaped_delay =
     world_reaped\<lparr>services := [1 \<mapsto> (new_service ''web'')
                 \<lparr>state := SVC_STATE_REAPED, vars := ''triggers=always'' @ [NUL],
                  active_linked := True, pid := 100, auto_restart := True,
                  start_time := 0x100000000, reap_time := 0x300000000,
                  restart_interval := 0xA00000000\<rparr>]\<rparr>"

text \<open>The record of \<open>world_reaped\<close> in a state where the next \<open>fork\<close> fails.\<close>

definition world_reaped_nofork :: world where
  "world_reaped_nofork = world_reaped\<lparr>launch_envs := (\<lambda>n. launch_ok\<lparr>fork_result := -1\<rparr>)\<rparr>"

text \<open>The same record reaped with the clock at 0 and the start time at 1.\<close>

definition world_reaped0 :: world where
  "world_reaped0 =
     world_reaped\<lparr>services := [1 \<mapsto> (new_service ''web'')
                 \<lparr>state := SVC_STATE_REAPED, vars := ''triggers=always'' @ [NUL],
                  active_linked := True, pid := 100, auto_restart := True,
                  start_time := 1, reap_time := 0\<rparr>],
             wake_now := 0, wake_next := 0\<rparr>"

text \<open>
  The record \<open>web\<close> waiting in START for the fifth second, the clock at the first,
  and the same with the wake deadline at the 200th second.
\<close>

definition world_waiting :: world where
  "world_waiting =
     world1\<lparr>services := [1 \<mapsto> (new_service ''web'')
                 \<lparr>state := SVC_STATE_START, active_linked := True, wait_status := -1,
                  start_time := 0x500000000\<rparr>],
             svc_active_list := [1], wake_next := 0x100000000\<rparr>"

definition world_waiting_far :: world where
  "world_waiting_far = world_waiting\<lparr>wake_next := 0xC800000000\<rparr>"

text \<open>
  The states after creating the services \<open>c\<close>, \<open>a\<close> and \<open>e\<close> in this order on the
  empty state, with \<open>malloc\<close> returning the addresses 1, 2 and 3.
\<close>

definition world_c :: world where
  "world_c = snd (svc_by_name cfg0 world0 ''c'' True True (Some 1))"

definition world_ca :: world where
  "world_ca = snd (svc_by_name cfg0 world_c ''a'' True True (Some 2))"

definition world_cae :: world where
  "world_cae = snd (svc_by_name cfg0 world_ca ''e'' True True (Some 3))"

section \<open>Properties\<close>

lemma check_name_loop_iff: "check_name_loop cs \<longleftrightarrow> list_all name_byte_ok cs"
  by (induction cs) auto

lemma svc_check_name_iff:
  "svc_check_name n nm \<longleftrightarrow> int (length nm) < n \<and> list_all name_byte_ok nm"
  by (auto simp: svc_check_name_def check_name_loop_iff)

text \<open>
  Claim C3. The claim asks that \<open>check_name\<close> accept exactly the names of 1 to
  \<open>NAME_BUF_SIZE - 1\<close> bytes over \<open>[A-Za-z0-9._-]\<close>, and so reject the empty name.
  The code has no lower bound on the length: for every positive buffer size the empty
  name is accepted.
\<close>

theorem svc_check_name_empty: "svc_check_name n [] = (0 < n)"
  by (simp add: svc_check_name_def)

subsection \<open>Tokens and the variable store\<close>

lemma strseg_cmp_eq: "strseg_cmp a b = 0 \<longleftrightarrow> a = b"
  by (induction a b rule: strseg_cmp.induct) auto

lemma takeWhile_take_sep:
  "sep \<notin> set xs \<Longrightarrow> length xs < n \<Longrightarrow> takeWhile (\<lambda>c. c \<noteq> sep) (take n (xs @ sep # ys)) = xs"
proof -
  assume a: "sep \<notin> set xs" and b: "length xs < n"
  from b obtain m where m: "n - length xs = Suc m"
    by (metis Suc_diff_Suc)
  from a have "\<forall>x\<in>set xs. x \<noteq> sep" by auto
  then show ?thesis using m by (simp add: takeWhile_append)
qed

lemma tok_next_at:
  assumes "sep \<notin> set xs" "int (length xs) < L" "drop off buf = xs @ sep # ys"
  shows "strseg_tok_next buf sep (off, L) =
         Some ((off + length xs + 1, L - int (length xs) - 1), (off, int (length xs)))"
proof -
  have "length xs < nat L" using assms(2) by simp
  then have "takeWhile (\<lambda>c. c \<noteq> sep) (take (nat L) (xs @ sep # ys)) = xs"
    using assms(1) by (rule takeWhile_take_sep [rotated])
  then show ?thesis using assms by (simp add: strseg_tok_next_def seg_bytes_def Let_def)
qed

lemma pack_vars_Nil [simp]: "pack_vars [] = []"
  by (simp add: pack_vars_def)

lemma pack_vars_Cons [simp]: "pack_vars (kv # kvs) = pack_var kv @ pack_vars kvs"
  by (simp add: pack_vars_def)

lemma pack_vars_append [simp]: "pack_vars (xs @ ys) = pack_vars xs @ pack_vars ys"
  by (simp add: pack_vars_def)

lemma length_pack_var: "length (pack_var kv) = length (fst kv) + length (snd kv) + 2"
  by (simp add: pack_var_def)


lemma find_var_step:
  assumes vk: "valid_key k" and vv: "valid_value v"
    and d: "drop off buf = pack_var (k, v) @ rest"
  shows "find_var buf nm (off, int (length (pack_var (k, v))) + int M) =
         (if k = nm then (Some (off + length k + 1, int (length v)), (off + length (pack_var (k, v)), int M))
          else find_var buf nm (off + length (pack_var (k, v)), int M))"
proof -
  let ?e = "k @ CHR ''='' # v"
  let ?L = "int (length (pack_var (k, v))) + int M"
  have d1: "drop off buf = ?e @ NUL # rest"
    using d by (simp add: pack_var_def)
  have nul: "NUL \<notin> set ?e"
    using vk vv by (auto simp: valid_key_def valid_value_def NUL_def)
  have t1: "strseg_tok_next buf NUL (off, ?L) =
      Some ((off + length ?e + 1, ?L - int (length ?e) - 1), (off, int (length ?e)))"
    by (rule tok_next_at [OF nul _ d1]) (simp add: pack_var_def)
  have d2: "drop off buf = k @ CHR ''='' # (v @ NUL # rest)"
    using d1 by simp
  have eq: "CHR ''='' \<notin> set k"
    using vk by (simp add: valid_key_def)
  have t2: "strseg_tok_next buf (CHR ''='') (off, int (length ?e)) =
      Some ((off + length k + 1, int (length ?e) - int (length k) - 1), (off, int (length k)))"
    by (rule tok_next_at [OF eq _ d2]) simp
  have key: "seg_bytes buf (off, int (length k)) = k"
    using d2 by (simp add: seg_bytes_def)
  have Leq: "?L - int (length ?e) - 1 = int M" "off + length ?e + 1 = off + length (pack_var (k, v))"
    "int (length ?e) - int (length k) - 1 = int (length v)"
    by (simp_all add: pack_var_def)
  have pos: "?L > 0" by (simp add: pack_var_def)
  show ?thesis
    apply (subst find_var.simps)
    using pos apply (simp only: t1 t2 key Leq snd_conv if_True option.case prod.case strseg_cmp_eq)
    done
qed

lemma drop_pack_step:
  "drop off buf = pack_var kv @ rest \<Longrightarrow> drop (off + length (pack_var kv)) buf = rest"
proof -
  assume d: "drop off buf = pack_var kv @ rest"
  have "drop (length (pack_var kv)) (drop off buf) = rest"
    by (simp only: d) simp
  then show ?thesis by (simp add: add.commute)
qed

lemma find_var_absent:
  "valid_vars kvs \<Longrightarrow> nm \<notin> fst ` set kvs \<Longrightarrow> drop off buf = pack_vars kvs @ rest \<Longrightarrow>
   find_var buf nm (off, int (length (pack_vars kvs))) = (None, (off + length (pack_vars kvs), 0))"
proof (induction kvs arbitrary: off)
  case Nil
  then show ?case by (simp add: find_var.simps)
next
  case (Cons kv kvs)
  obtain k v where kv: "kv = (k, v)" by (cases kv)
  have vk: "valid_key k" "valid_value v" and vv: "valid_vars kvs"
    using Cons.prems(1) by (auto simp: valid_vars_def kv)
  have d: "drop off buf = pack_var (k, v) @ (pack_vars kvs @ rest)"
    using Cons.prems(3) by (simp add: kv)
  have ne: "k \<noteq> nm" using Cons.prems(2) by (auto simp: kv)
  have ih: "find_var buf nm (off + length (pack_var (k, v)), int (length (pack_vars kvs))) =
      (None, (off + length (pack_var (k, v)) + length (pack_vars kvs), 0))"
    using Cons.IH [OF vv _ drop_pack_step [OF d]] Cons.prems(2) by simp
  show ?case
    using find_var_step [OF vk d, of nm "length (pack_vars kvs)"] ne ih
    by (simp add: kv add.assoc)
qed

lemma find_var_present:
  "valid_vars (kvs1 @ (nm, v) # kvs2) \<Longrightarrow> nm \<notin> fst ` set kvs1 \<Longrightarrow>
   drop off buf = pack_vars (kvs1 @ (nm, v) # kvs2) @ rest \<Longrightarrow>
   find_var buf nm (off, int (length (pack_vars (kvs1 @ (nm, v) # kvs2)))) =
     (Some (off + length (pack_vars kvs1) + length nm + 1, int (length v)),
      (off + length (pack_vars kvs1) + length (pack_var (nm, v)), int (length (pack_vars kvs2))))"
proof (induction kvs1 arbitrary: off)
  case Nil
  have vk: "valid_key nm" "valid_value v"
    using Nil.prems(1) by (auto simp: valid_vars_def)
  have d: "drop off buf = pack_var (nm, v) @ (pack_vars kvs2 @ rest)"
    using Nil.prems(3) by simp
  show ?case
    using find_var_step [OF vk d, of nm "length (pack_vars kvs2)"] by simp
next
  case (Cons kv kvs1)
  obtain k w where kv: "kv = (k, w)" by (cases kv)
  have vk: "valid_key k" "valid_value w" and vv: "valid_vars (kvs1 @ (nm, v) # kvs2)"
    using Cons.prems(1) by (auto simp: valid_vars_def kv)
  have d: "drop off buf = pack_var (k, w) @ (pack_vars (kvs1 @ (nm, v) # kvs2) @ rest)"
    using Cons.prems(3) by (simp add: kv)
  have ne: "k \<noteq> nm" using Cons.prems(2) by (auto simp: kv)
  have ih: "find_var buf nm (off + length (pack_var (k, w)), int (length (pack_vars (kvs1 @ (nm, v) # kvs2)))) =
     (Some (off + length (pack_var (k, w)) + length (pack_vars kvs1) + length nm + 1, int (length v)),
      (off + length (pack_var (k, w)) + length (pack_vars kvs1) + length (pack_var (nm, v)), int (length (pack_vars kvs2))))"
    using Cons.IH [OF vv _ drop_pack_step [OF d]] Cons.prems(2) by simp
  show ?case
    using find_var_step [OF vk d, of nm "length (pack_vars (kvs1 @ (nm, v) # kvs2))"] ne ih
    by (simp add: kv add.assoc)
qed

lemma memcpy_store:
  assumes "dst + length bs < length b"
  shows "(memcpy_buf b dst bs)[dst + length bs := c] =
         take dst b @ bs @ c # drop (dst + length bs + 1) b"
proof -
  have l: "length (take dst b) = dst" using assms by simp
  have d: "drop (dst + length bs) b = b ! (dst + length bs) # drop (dst + length bs + 1) b"
    using assms by (simp add: Cons_nth_drop_Suc)
  have "(memcpy_buf b dst bs)[dst + length bs := c] =
        take dst b @ (bs @ drop (dst + length bs) b)[length bs := c]"
    unfolding memcpy_buf_def using l by (simp add: list_update_append)
  also have "(bs @ drop (dst + length bs) b)[length bs := c] = bs @ c # drop (dst + length bs + 1) b"
    by (subst d) (simp add: list_update_append)
  finally show ?thesis .
qed

lemma memmove_length:
  "src + n \<le> length b \<Longrightarrow> dst + n \<le> length b \<Longrightarrow> length (memmove_buf b dst src n) = length b"
  by (simp add: memmove_buf_def)

lemma memmove_take:
  "i \<le> dst \<Longrightarrow> dst \<le> length b \<Longrightarrow> take i (memmove_buf b dst src n) = take i b"
  by (simp add: memmove_buf_def min_def)

lemma memmove_moved:
  "src + n \<le> length b \<Longrightarrow> dst + n \<le> length b \<Longrightarrow>
   take n (drop dst (memmove_buf b dst src n)) = take n (drop src b)"
  by (simp add: memmove_buf_def)

lemma store_core:
  assumes "take od b = P" "od + length v < length b" "take n (drop (od + length v + 1) b) = B"
  shows "take (od + length v + 1 + n) ((memcpy_buf b od v)[od + length v := z]) = P @ v @ z # B"
proof -
  have "length (take od b) = od" using assms(2) by simp
  then have l: "length P = od" by (simp only: assms(1))
  show ?thesis
    using assms(3) by (subst memcpy_store [OF assms(2)]) (simp add: l assms(1))
qed

lemma write_insert:
  "set_var_write buf None (length buf, 0) nm (Some v) (int (length nm) + 1 + int (length v) + 1) =
   buf @ nm @ CHR ''='' # v @ [NUL]"
proof -
  let ?n = "length nm + 1 + length v + 1"
  let ?b0 = "buf @ replicate ?n NUL"
  have n: "nat (int (length nm) + 1 + int (length v) + 1) = ?n" by simp
  have b2: "(memcpy_buf ?b0 (length buf) nm)[length buf + length nm := CHR ''=''] =
        buf @ nm @ CHR ''='' # replicate (length v + 1) NUL"
    by (subst memcpy_store) (simp_all del: replicate_Suc)
  have b3: "take (length buf + length nm + 1 + length v + 1 + 0)
              ((memcpy_buf (buf @ nm @ CHR ''='' # replicate (length v + 1) NUL) (length buf + length nm + 1) v)
              [length buf + length nm + 1 + length v := NUL]) =
        (buf @ nm @ [CHR ''='']) @ v @ NUL # []"
    by (rule store_core) (simp_all del: replicate_Suc)
  have res: "take (length buf + length nm + 1 + length v + 1 + 0)
      ((memcpy_buf ((memcpy_buf ?b0 (length buf) nm)[length buf + length nm := CHR ''=''])
          (length buf + length nm + 1) v)[length buf + length nm + 1 + length v := NUL]) =
      buf @ nm @ CHR ''='' # v @ [NUL]"
    by (simp only: b2 b3) simp
  show ?thesis
    using res by (simp add: set_var_write_def Let_def nat_add_distrib add.assoc)
qed

lemma write_replace:
  fixes A B old v nm :: string
  defines "buf \<equiv> A @ nm @ CHR ''='' # old @ NUL # B"
  defines "od \<equiv> length A + length nm + 1"
  shows "set_var_write buf (Some (od, int (length old))) (od + length old + 1, int (length B)) nm (Some v)
           (int (length v) - int (length old)) =
         A @ nm @ CHR ''='' # v @ NUL # B"
proof -
  define sd where "sd = int (length v) - int (length old)"
  define src where "src = od + length old + 1"
  define dst where "dst = od + length v + 1"
  define n where "n = length B"
  define b0 where "b0 = buf @ replicate (nat sd) NUL"
  define b1 where "b1 = (if sd \<noteq> 0 \<and> int n > 0 then memmove_buf b0 (nat (int src + sd)) src (nat (int n)) else b0)"
  have dst': "nat (int src + sd) = dst" by (simp add: src_def sd_def dst_def)
  have lbuf: "length buf = src + n" by (simp add: buf_def src_def od_def n_def)
  have lb0: "length b0 = src + n + nat sd" by (simp add: b0_def lbuf)
  have le1: "src + n \<le> length b0" by (simp add: lb0)
  have le2: "dst + n \<le> length b0" by (simp add: lb0 dst_def src_def sd_def) 
  have tk0: "take od b0 = A @ nm @ [CHR ''='']" by (simp add: b0_def buf_def od_def)
  have dr0: "take n (drop src b0) = B" by (simp add: b0_def buf_def od_def src_def n_def)
  have F1: "take od b1 = A @ nm @ [CHR ''='']"
    using tk0 le2 by (simp add: b1_def dst' memmove_take dst_def)
  have len1: "length b1 = length b0"
    using le1 le2 by (simp add: b1_def dst' memmove_length)
  have F2: "od + length v < length b1"
    using le2 by (simp add: len1 dst_def)
  have F3: "take n (drop (od + length v + 1) b1) = B"
  proof (cases "sd \<noteq> 0 \<and> int n > 0")
    case True
    then have "b1 = memmove_buf b0 dst src n" by (simp add: b1_def dst')
    then show ?thesis using memmove_moved [OF le1 le2] dr0 by (simp add: dst_def)
  next
    case False
    then have b: "b1 = b0" unfolding b1_def by auto
    from False consider "sd = 0" | "n = 0" by auto
    then show ?thesis
    proof cases
      case 1
      then have "od + length v + 1 = src" by (simp add: sd_def src_def)
      then show ?thesis using dr0 b by simp
    next
      case 2
      then show ?thesis by (simp add: n_def)
    qed
  qed
  have res: "take (od + length v + 1 + n) ((memcpy_buf b1 od v)[od + length v := NUL]) =
             (A @ nm @ [CHR ''='']) @ v @ NUL # B"
    by (rule store_core [OF F1 F2 F3])
  have m: "nat (int (length buf) + sd) = od + length v + 1 + n"
    by (simp add: lbuf src_def sd_def)
  have "set_var_write buf (Some (od, int (length old))) (src, int n) nm (Some v) sd =
        take (nat (int (length buf) + sd)) ((memcpy_buf b1 od v)[od + length v := NUL])"
    by (simp add: set_var_write_def Let_def b1_def b0_def)
  also have "\<dots> = take (od + length v + 1 + n) ((memcpy_buf b1 od v)[od + length v := NUL])"
    by (simp only: m)
  also have "\<dots> = (A @ nm @ [CHR ''='']) @ v @ NUL # B"
    by (rule res)
  finally show ?thesis
    unfolding src_def n_def sd_def by simp
qed

lemma write_delete:
  fixes A B old nm :: string
  defines "buf \<equiv> A @ nm @ CHR ''='' # old @ NUL # B"
  defines "od \<equiv> length A + length nm + 1"
  shows "set_var_write buf (Some (od, int (length old))) (od + length old + 1, int (length B)) nm None
           (- (int (length old) + 1 + int (length nm) + 1)) =
         A @ B"
proof -
  define sd where "sd = - (int (length old) + 1 + int (length nm) + 1)"
  define src where "src = od + length old + 1"
  define n where "n = length B"
  define b1 where "b1 = (if sd \<noteq> 0 \<and> int n > 0 then memmove_buf buf (nat (int src + sd)) src (nat (int n)) else buf)"
  have dst': "nat (int src + sd) = length A" by (simp add: src_def sd_def od_def)
  have lbuf: "length buf = src + n" by (simp add: buf_def src_def od_def n_def)
  have dr0: "take n (drop src buf) = B" by (simp add: buf_def od_def src_def n_def)
  have tk0: "take (length A) buf = A" by (simp add: buf_def)
  have res: "take (length A + n) b1 = A @ B"
  proof (cases "int n > 0")
    case True
    moreover have "sd \<noteq> 0" by (simp add: sd_def)
    ultimately have "b1 = take (length A) buf @ take n (drop src buf) @ drop (length A + n) buf"
      by (simp add: b1_def dst' memmove_buf_def)
    then have "b1 = A @ B @ drop (length A + n) buf"
      by (simp only: tk0 dr0)
    then show ?thesis by (simp add: n_def)
  next
    case False
    then show ?thesis by (simp add: b1_def tk0 n_def)
  qed
  have m: "nat (int (length buf) + sd) = length A + n"
    by (simp add: lbuf src_def sd_def od_def)
  have sdneg: "nat sd = 0" by (simp add: sd_def)
  have "set_var_write buf (Some (od, int (length old))) (src, int n) nm None sd =
        take (nat (int (length buf) + sd)) b1"
    by (simp add: set_var_write_def Let_def b1_def sdneg)
  also have "\<dots> = take (length A + n) b1"
    by (simp only: m)
  also have "\<dots> = A @ B"
    by (rule res)
  finally show ?thesis
    unfolding src_def n_def sd_def by simp
qed

lemma write_noop: "set_var_write buf None tail nm None 0 = buf"
  by (simp add: set_var_write_def)

lemma valid_vars_split:
  assumes "valid_vars (kvs1 @ (nm, v) # kvs2)"
  shows "nm \<notin> fst ` set kvs1" "nm \<notin> fst ` set kvs2" "valid_key nm" "valid_value v"
    "valid_vars (kvs1 @ kvs2)" "valid_vars kvs1"
  using assms by (auto simp: valid_vars_def)

lemma valid_vars_replace:
  "valid_vars (kvs1 @ (nm, v) # kvs2) \<Longrightarrow> valid_value u \<Longrightarrow> valid_vars (kvs1 @ (nm, u) # kvs2)"
  by (auto simp: valid_vars_def)

lemma valid_vars_snoc:
  "valid_vars kvs \<Longrightarrow> nm \<notin> fst ` set kvs \<Longrightarrow> valid_key nm \<Longrightarrow> valid_value v \<Longrightarrow>
   valid_vars (kvs @ [(nm, v)])"
  by (auto simp: valid_vars_def)

lemma keys_split:
  "nm \<in> fst ` set kvs \<Longrightarrow> \<exists>kvs1 v kvs2. kvs = kvs1 @ (nm, v) # kvs2"
  by (metis imageE prod.collapse split_list)

lemma find_var_packed_absent:
  assumes "valid_vars kvs" "nm \<notin> fst ` set kvs"
  shows "find_var (pack_vars kvs) nm (0, int (length (pack_vars kvs))) =
         (None, (length (pack_vars kvs), 0))"
  using find_var_absent [OF assms, of 0 "pack_vars kvs" "[]"] by simp

lemma find_var_packed_present:
  assumes "valid_vars (kvs1 @ (nm, v) # kvs2)"
  shows "find_var (pack_vars (kvs1 @ (nm, v) # kvs2)) nm
           (0, int (length (pack_vars (kvs1 @ (nm, v) # kvs2)))) =
         (Some (length (pack_vars kvs1) + length nm + 1, int (length v)),
          (length (pack_vars kvs1) + length (pack_var (nm, v)), int (length (pack_vars kvs2))))"
  using find_var_present [OF assms valid_vars_split(1) [OF assms],
      of 0 "pack_vars (kvs1 @ (nm, v) # kvs2)" "[]"] by simp

lemma svc_get_var_absent:
  "valid_vars kvs \<Longrightarrow> vars svc = pack_vars kvs \<Longrightarrow> nm \<notin> fst ` set kvs \<Longrightarrow>
   svc_get_var svc nm = None"
  by (simp add: svc_get_var_def find_var_packed_absent)

lemma svc_get_var_present:
  "valid_vars (kvs1 @ (nm, v) # kvs2) \<Longrightarrow> vars svc = pack_vars (kvs1 @ (nm, v) # kvs2) \<Longrightarrow>
   svc_get_var svc nm = Some (length (pack_vars kvs1) + length nm + 1, int (length v))"
  using find_var_packed_present [of kvs1 nm v kvs2] by (simp add: svc_get_var_def)


lemma c_string_at_present:
  "valid_value v \<Longrightarrow>
   c_string_at (pack_vars (kvs1 @ (nm, v) # kvs2)) (length (pack_vars kvs1) + length nm + 1) = v"
  by (auto simp: c_string_at_def pack_var_def valid_value_def takeWhile_tail)

lemma svc_set_var_absent_Some:
  assumes "valid_vars kvs" "vars svc = pack_vars kvs" "nm \<notin> fst ` set kvs"
  shows "svc_set_var cfg ok svc nm (Some v) =
     (if svc_pool cfg \<and> int (length (vars svc)) + int (length (pack_var (nm, v)))
            > svc_pool_size_each cfg - (name_buf_offset cfg + int (length (name svc)) + 1)
         \<or> \<not> svc_pool cfg \<and> \<not> ok
      then (False, svc)
      else (True, svc\<lparr>vars := pack_vars (kvs @ [(nm, v)])\<rparr>))"
  unfolding svc_set_var_def
  using write_insert [of "pack_vars kvs" nm v]
  by (auto simp: assms find_var_packed_absent Let_def set_var_sizediff_def length_pack_var)
     (simp_all add: pack_var_def)

lemma svc_set_var_absent_None:
  assumes "valid_vars kvs" "vars svc = pack_vars kvs" "nm \<notin> fst ` set kvs"
  shows "svc_set_var cfg ok svc nm None = (True, svc)"
proof -
  have "svc\<lparr>vars := pack_vars kvs\<rparr> = svc" using assms(2) by simp
  then show ?thesis
    unfolding svc_set_var_def
    by (simp add: assms find_var_packed_absent Let_def set_var_sizediff_def write_noop)
qed

lemma svc_set_var_present_Some:
  assumes "valid_vars (kvs1 @ (nm, old) # kvs2)" "vars svc = pack_vars (kvs1 @ (nm, old) # kvs2)"
  shows "svc_set_var cfg ok svc nm (Some v) =
     (if length old < length v \<and>
         (svc_pool cfg \<and> int (length (vars svc)) + (int (length v) - int (length old))
            > svc_pool_size_each cfg - (name_buf_offset cfg + int (length (name svc)) + 1)
          \<or> \<not> svc_pool cfg \<and> \<not> ok)
      then (False, svc)
      else (True, svc\<lparr>vars := pack_vars (kvs1 @ (nm, v) # kvs2)\<rparr>))"
  unfolding svc_set_var_def
  using write_replace [of "pack_vars kvs1" nm old "pack_vars kvs2" v]
    find_var_packed_present [OF assms(1)]
  by (auto simp: assms Let_def set_var_sizediff_def length_pack_var pack_var_def add.assoc)

lemma svc_set_var_present_None:
  assumes "valid_vars (kvs1 @ (nm, old) # kvs2)" "vars svc = pack_vars (kvs1 @ (nm, old) # kvs2)"
  shows "svc_set_var cfg ok svc nm None = (True, svc\<lparr>vars := pack_vars (kvs1 @ kvs2)\<rparr>)"
  unfolding svc_set_var_def
  using write_delete [of "pack_vars kvs1" nm old "pack_vars kvs2"]
    find_var_packed_present [OF assms(1)]
  by (auto simp: assms Let_def set_var_sizediff_def length_pack_var pack_var_def add.assoc)

lemma valid_vars_Nil [simp]: "valid_vars []"
  by (simp add: valid_vars_def)






lemma split_on_nonempty: "split_on sep s \<noteq> []"
  by (induction s) (auto split: list.splits)

lemma split_on_no_sep: "sep \<notin> set s \<Longrightarrow> split_on sep s = [s]"
  by (induction s) auto

lemma split_on_sep: "sep \<notin> set xs \<Longrightarrow> split_on sep (xs @ sep # ys) = xs # split_on sep ys"
  by (induction xs) auto

lemma tok_next_last:
  assumes "sep \<notin> set s" "drop off buf = s"
  shows "strseg_tok_next buf sep (off, int (length s)) =
         Some ((off + length s + 1, -1), (off, int (length s)))"
proof -
  have tw: "takeWhile (\<lambda>c. c \<noteq> sep) s = s" using assms(1) by (auto simp: takeWhile_eq_all_conv)
  show ?thesis using assms(2) by (simp add: strseg_tok_next_def seg_bytes_def Let_def tw)
qed

lemma tok_next_end: "strseg_tok_next buf sep (off, -1) = None"
  by (simp add: strseg_tok_next_def)

lemma seg_bytes_prefix: "drop off buf = xs @ ys \<Longrightarrow> seg_bytes buf (off, int (length xs)) = xs"
  by (simp add: seg_bytes_def)

lemma fds_loop_tokens:
  "drop off buf = s \<Longrightarrow>
   fds_loop buf (off, int (length s)) (ev, cmd, sock) =
     (ev \<or> ''control.event'' \<in> set (split_on TAB s),
      cmd \<or> ''control.cmd'' \<in> set (split_on TAB s),
      sock \<or> ''control.socket'' \<in> set (split_on TAB s))"
proof (induction s arbitrary: off ev cmd sock rule: length_induct)
  case (1 s)
  show ?case
  proof (cases "TAB \<in> set s")
    case False
    have t: "strseg_tok_next buf TAB (off, int (length s)) =
             Some ((off + length s + 1, -1), (off, int (length s)))"
      using False "1.prems" by (rule tok_next_last)
    have b: "seg_bytes buf (off, int (length s)) = s"
      using "1.prems" by (simp add: seg_bytes_def)
    show ?thesis
      apply (subst fds_loop.simps)
      apply (simp only: t option.case prod.case b)
      apply (subst fds_loop.simps)
      apply (simp add: tok_next_end split_on_no_sep [OF False] strseg_cmp_eq)
      done
  next
    case True
    then obtain xs ys where s: "s = xs @ TAB # ys" and nx: "TAB \<notin> set xs"
      by (meson split_list_first)
    have d: "drop off buf = xs @ TAB # ys" using "1.prems" s by simp
    have t: "strseg_tok_next buf TAB (off, int (length s)) =
             Some ((off + length xs + 1, int (length s) - int (length xs) - 1), (off, int (length xs)))"
      by (rule tok_next_at [OF nx _ d]) (simp add: s)
    have l: "int (length s) - int (length xs) - 1 = int (length ys)" by (simp add: s)
    have b: "seg_bytes buf (off, int (length xs)) = xs"
      using d by (rule seg_bytes_prefix)
    have d': "drop (off + length xs + 1) buf = ys"
    proof -
      have "drop (length xs + 1) (drop off buf) = ys" by (simp only: d) simp
      then show ?thesis by (simp add: add.commute)
    qed
    have shorter: "length ys < length s" by (simp add: s)
    note ih = "1.IH" [rule_format, OF shorter d']
    show ?thesis
      apply (subst fds_loop.simps)
      apply (simp only: t l option.case prod.case b ih)
      apply (simp add: s split_on_sep [OF nx] strseg_cmp_eq)
      done
  qed
qed

lemma filter_keys_absent: "nm \<notin> fst ` set kvs \<Longrightarrow> filter (\<lambda>kv. fst kv \<noteq> nm) kvs = kvs"
  by (induction kvs) auto

lemma svc_set_var_None_packed:
  assumes wf: "valid_vars kvs" and buf: "vars svc = pack_vars kvs"
  shows "svc_set_var cfg ok svc nm None =
         (True, svc\<lparr>vars := pack_vars (filter (\<lambda>kv. fst kv \<noteq> nm) kvs)\<rparr>)"
proof (cases "nm \<in> fst ` set kvs")
  case False
  have "svc\<lparr>vars := pack_vars kvs\<rparr> = svc" using buf by simp
  then show ?thesis
    using svc_set_var_absent_None [OF wf buf False, of cfg ok]
    by (simp add: filter_keys_absent [OF False])
next
  case True
  from keys_split [OF True] obtain kvs1 old kvs2 where sp: "kvs = kvs1 @ (nm, old) # kvs2"
    by (elim exE)
  have wf0: "valid_vars (kvs1 @ (nm, old) # kvs2)" using wf sp by simp
  have buf0: "vars svc = pack_vars (kvs1 @ (nm, old) # kvs2)" using buf sp by simp
  have f: "filter (\<lambda>kv. fst kv \<noteq> nm) kvs = kvs1 @ kvs2"
    using valid_vars_split(1,2) [OF wf0] by (simp add: sp filter_keys_absent)
  show ?thesis
    using svc_set_var_present_None [OF wf0 buf0, of cfg ok] by (simp only: f)
qed

lemma valid_vars_filter: "valid_vars kvs \<Longrightarrow> valid_vars (filter P kvs)"
  by (auto simp: valid_vars_def list_all_iff distinct_map_filter)

lemma length_pack_vars_filter:
  "valid_vars kvs \<Longrightarrow> (nm, old) \<in> set kvs \<Longrightarrow>
   int (length (pack_vars (filter (\<lambda>kv. fst kv \<noteq> nm) kvs))) =
   int (length (pack_vars kvs)) - int (length (pack_var (nm, old)))"
proof -
  assume wf: "valid_vars kvs" and m: "(nm, old) \<in> set kvs"
  from m obtain kvs1 kvs2 where sp: "kvs = kvs1 @ (nm, old) # kvs2"
    by (meson split_list)
  have wf0: "valid_vars (kvs1 @ (nm, old) # kvs2)" using wf sp by simp
  have f: "filter (\<lambda>kv. fst kv \<noteq> nm) kvs = kvs1 @ kvs2"
    using valid_vars_split(1,2) [OF wf0] by (simp add: sp filter_keys_absent)
  show ?thesis by (simp add: f) (simp add: sp)
qed

lemma fds_default_tokens: "split_on TAB fds_default = [''null'', ''null'', ''null'']"
  by (simp add: fds_default_def TAB_def)

lemma set_fds_flags:
  "fst (svc_set_fds cfg ok svc new_fds) \<Longrightarrow>
   uses_control_event (snd (svc_set_fds cfg ok svc new_fds)) = (''control.event'' \<in> set (split_on TAB new_fds))
   \<and> uses_control_cmd (snd (svc_set_fds cfg ok svc new_fds)) = (''control.cmd'' \<in> set (split_on TAB new_fds))
   \<and> uses_control_socket (snd (svc_set_fds cfg ok svc new_fds)) = (''control.socket'' \<in> set (split_on TAB new_fds))"
  using fds_loop_tokens [of 0 new_fds new_fds False False False]
  by (auto simp: svc_set_fds_def Let_def split: prod.splits if_splits)

lemma set_fds_default:
  assumes wf: "valid_vars kvs" and buf: "vars svc = pack_vars kvs"
  shows "svc_set_fds cfg ok svc fds_default =
         (True, svc\<lparr>vars := pack_vars (filter (\<lambda>kv. fst kv \<noteq> ''fds'') kvs),
                    uses_control_event := False, uses_control_cmd := False,
                    uses_control_socket := False\<rparr>)"
  using fds_loop_tokens [of 0 fds_default fds_default False False False]
  by (simp add: svc_set_fds_def strseg_cmp_eq svc_set_var_None_packed [OF wf buf]
        fds_default_tokens)

subsection \<open>The global state\<close>


lemma svc_at_upd_same [simp]: "svc_at (svc_upd p f w) p = f (svc_at w p)"
  by (simp add: svc_at_def svc_upd_def)

lemma svc_at_upd_other [simp]: "q \<noteq> p \<Longrightarrow> svc_at (svc_upd p f w) q = svc_at w q"
  by (simp add: svc_at_def svc_upd_def)

lemma svc_at_world_fields [simp]:
  "svc_at (w\<lparr>svc_active_list := al\<rparr>) q = svc_at w q"
  "svc_at (w\<lparr>svc_sigwake_list := sl\<rparr>) q = svc_at w q"
  "svc_at (w\<lparr>svc_by_pid_index := pi\<rparr>) q = svc_at w q"
  "svc_at (w\<lparr>svc_by_name_index := ni\<rparr>) q = svc_at w q"
  "svc_at (w\<lparr>wake_next := wn\<rparr>) q = svc_at w q"
  "svc_at (w\<lparr>notified := nl\<rparr>) q = svc_at w q"
  "svc_at (w\<lparr>launches := ln\<rparr>) q = svc_at w q"
  "svc_at (w\<lparr>forks := fk\<rparr>) q = svc_at w q"
  "svc_at (w\<lparr>svc_list := sv\<rparr>) q = svc_at w q"
  "svc_at (w\<lparr>svc_list_count := sc\<rparr>) q = svc_at w q"
  by (simp_all add: svc_at_def)

lemma svc_upd_fields [simp]:
  "svc_active_list (svc_upd p f w) = svc_active_list w"
  "svc_sigwake_list (svc_upd p f w) = svc_sigwake_list w"
  "svc_by_pid_index (svc_upd p f w) = svc_by_pid_index w"
  "svc_by_name_index (svc_upd p f w) = svc_by_name_index w"
  "wake_now (svc_upd p f w) = wake_now w"
  "wake_next (svc_upd p f w) = wake_next w"
  "notified (svc_upd p f w) = notified w"
  "sig_events (svc_upd p f w) = sig_events w"
  "launches (svc_upd p f w) = launches w"
  "forks (svc_upd p f w) = forks w"
  "launch_envs (svc_upd p f w) = launch_envs w"
  "svc_list (svc_upd p f w) = svc_list w"
  "svc_list_count (svc_upd p f w) = svc_list_count w"
  "svc_last_signal_ts (svc_upd p f w) = svc_last_signal_ts w"
  by (simp_all add: svc_upd_def)

lemma svc_at_notify [simp]: "svc_at (svc_notify_state w p) q = svc_at w q"
  by (simp add: svc_notify_state_def Let_def)

lemma notify_fields [simp]:
  "svc_active_list (svc_notify_state w p) = svc_active_list w"
  "svc_sigwake_list (svc_notify_state w p) = svc_sigwake_list w"
  "svc_by_pid_index (svc_notify_state w p) = svc_by_pid_index w"
  "svc_by_name_index (svc_notify_state w p) = svc_by_name_index w"
  "wake_now (svc_notify_state w p) = wake_now w"
  "wake_next (svc_notify_state w p) = wake_next w"
  "sig_events (svc_notify_state w p) = sig_events w"
  "launches (svc_notify_state w p) = launches w"
  "forks (svc_notify_state w p) = forks w"
  "launch_envs (svc_notify_state w p) = launch_envs w"
  "services (svc_notify_state w p) = services w"
  "svc_list (svc_notify_state w p) = svc_list w"
  "svc_list_count (svc_notify_state w p) = svc_list_count w"
  by (simp_all add: svc_notify_state_def Let_def)

lemma svc_at_set_active:
  "svc_at (svc_set_active w p b) q =
     (if q = p \<and> b \<noteq> active_linked (svc_at w p) then (svc_at w p)\<lparr>active_linked := b\<rparr> else svc_at w q)"
  by (auto simp: svc_set_active_def)

lemma set_active_list:
  "svc_active_list (svc_set_active w p b) =
     (if b \<and> \<not> active_linked (svc_at w p) then p # svc_active_list w
      else if \<not> b \<and> active_linked (svc_at w p) then remove1 p (svc_active_list w)
      else svc_active_list w)"
  by (simp add: svc_set_active_def)

lemma set_active_fields [simp]:
  "svc_sigwake_list (svc_set_active w p b) = svc_sigwake_list w"
  "svc_by_pid_index (svc_set_active w p b) = svc_by_pid_index w"
  "svc_by_name_index (svc_set_active w p b) = svc_by_name_index w"
  "wake_now (svc_set_active w p b) = wake_now w"
  "wake_next (svc_set_active w p b) = wake_next w"
  "notified (svc_set_active w p b) = notified w"
  "sig_events (svc_set_active w p b) = sig_events w"
  "launches (svc_set_active w p b) = launches w"
  "forks (svc_set_active w p b) = forks w"
  "launch_envs (svc_set_active w p b) = launch_envs w"
  "svc_list (svc_set_active w p b) = svc_list w"
  "svc_list_count (svc_set_active w p b) = svc_list_count w"
  by (simp_all add: svc_set_active_def)

lemma svc_at_change_pid:
  "svc_at (svc_change_pid w p n) q = (if q = p then (svc_at w p)\<lparr>pid := n\<rparr> else svc_at w q)"
  by (simp add: svc_change_pid_def Let_def)

lemma change_pid_fields [simp]:
  "svc_active_list (svc_change_pid w p n) = svc_active_list w"
  "svc_sigwake_list (svc_change_pid w p n) = svc_sigwake_list w"
  "svc_by_name_index (svc_change_pid w p n) = svc_by_name_index w"
  "wake_now (svc_change_pid w p n) = wake_now w"
  "wake_next (svc_change_pid w p n) = wake_next w"
  "notified (svc_change_pid w p n) = notified w"
  "sig_events (svc_change_pid w p n) = sig_events w"
  "launches (svc_change_pid w p n) = launches w"
  "forks (svc_change_pid w p n) = forks w"
  "launch_envs (svc_change_pid w p n) = launch_envs w"
  "svc_list (svc_change_pid w p n) = svc_list w"
  "svc_list_count (svc_change_pid w p n) = svc_list_count w"
  by (simp_all add: svc_change_pid_def Let_def)

lemma handle_start_ok:
  assumes st: "state (svc_at w p) = SVC_STATE_DOWN \<or> state (svc_at w p) = SVC_STATE_START"
  shows "fst (svc_handle_start w p t)"
    and "svc_at (snd (svc_handle_start w p t)) p =
         (svc_at w p)\<lparr>state := SVC_STATE_START,
            start_time := (if later_of t (wake_now w) = 0 then 1 else later_of t (wake_now w)),
            pid := 0, reap_time := 0, wait_status := -1, active_linked := True\<rparr>"
    and "svc_active_list (snd (svc_handle_start w p t)) =
         (if active_linked (svc_at w p) then svc_active_list w else p # svc_active_list w)"
    and "wake_next (snd (svc_handle_start w p t)) = wake_now w"
    and "wake_now (snd (svc_handle_start w p t)) = wake_now w"
  using st
  by (auto simp: svc_handle_start_def Let_def svc_at_set_active svc_at_change_pid set_active_list)

subsection \<open>Starting a service\<close>

lemma later_of_max: "later_of t now = (if now <s t then t else now)"
  by (simp add: later_of_def word_sless_alt)

text \<open>
  Claim C1. For a record in state DOWN or START whose list link agrees with the
  active list, and a time \<open>when\<close> whose difference to \<open>now\<close> C defines,
  \<open>svc_handle_start\<close> returns true; afterwards the state is START, \<open>start_time\<close> is
  the greater of \<open>when\<close> and \<open>now\<close>, with 0 stored as 1; \<open>pid\<close> and \<open>reap_time\<close> are 0,
  \<open>wait_status\<close> is -1, the record is on the active list, and the loop wake deadline
  equals \<open>now\<close>.
\<close>

theorem handle_start_effect:
  assumes "state (svc_at w p) = SVC_STATE_DOWN \<or> state (svc_at w p) = SVC_STATE_START"
    and "active_linked (svc_at w p) \<longrightarrow> p \<in> set (svc_active_list w)"
    and "diff_fits t (wake_now w)"
  shows "fst (svc_handle_start w p t)
     \<and> state (svc_at (snd (svc_handle_start w p t)) p) = SVC_STATE_START
     \<and> start_time (svc_at (snd (svc_handle_start w p t)) p) =
         (let m = (if wake_now w <s t then t else wake_now w) in if m = 0 then 1 else m)
     \<and> pid (svc_at (snd (svc_handle_start w p t)) p) = 0
     \<and> reap_time (svc_at (snd (svc_handle_start w p t)) p) = 0
     \<and> wait_status (svc_at (snd (svc_handle_start w p t)) p) = -1
     \<and> active_linked (svc_at (snd (svc_handle_start w p t)) p)
     \<and> p \<in> set (svc_active_list (snd (svc_handle_start w p t)))
     \<and> wake_next (snd (svc_handle_start w p t)) = wake_now w
     \<and> wake_now (snd (svc_handle_start w p t)) = wake_now w"
  using handle_start_ok [OF assms(1), of t] assms(2)
  by (simp add: later_of_max Let_def)

text \<open>
  The theorem at work: the fresh record \<open>web\<close> is started for the fifth second with
  the clock at the first, and for the time 0 with the clock at 0.
\<close>

theorem handle_start_effect_witness:
  "(state (svc_at world1 1) = SVC_STATE_DOWN \<or> state (svc_at world1 1) = SVC_STATE_START)
   \<and> \<not> active_linked (svc_at world1 1)
   \<and> wake_now world1 = 0x100000000
   \<and> diff_fits 0x500000000 (wake_now world1)
   \<and> fst (svc_handle_start world1 1 0x500000000)
   \<and> state (svc_at (snd (svc_handle_start world1 1 0x500000000)) 1) = SVC_STATE_START
   \<and> start_time (svc_at (snd (svc_handle_start world1 1 0x500000000)) 1) = 0x500000000
   \<and> pid (svc_at (snd (svc_handle_start world1 1 0x500000000)) 1) = 0
   \<and> reap_time (svc_at (snd (svc_handle_start world1 1 0x500000000)) 1) = 0
   \<and> wait_status (svc_at (snd (svc_handle_start world1 1 0x500000000)) 1) = -1
   \<and> 1 \<in> set (svc_active_list (snd (svc_handle_start world1 1 0x500000000)))
   \<and> wake_next (snd (svc_handle_start world1 1 0x500000000)) = 0x100000000
   \<and> start_time (svc_at (snd (svc_handle_start (world1\<lparr>wake_now := 0\<rparr>) 1 0)) 1) = 1"
proof -
  have st: "state (svc_at world1 1) = SVC_STATE_DOWN \<or> state (svc_at world1 1) = SVC_STATE_START"
    by (simp add: world1_def svc_at_def new_service_def)
  have al: "\<not> active_linked (svc_at world1 1)"
    by (simp add: world1_def svc_at_def new_service_def)
  then have al': "active_linked (svc_at world1 1) \<longrightarrow> 1 \<in> set (svc_active_list world1)"
    by simp
  have now: "wake_now world1 = 0x100000000"
    by (simp add: world1_def world0_def)
  have df: "diff_fits 0x500000000 (wake_now world1)"
    by (simp add: now diff_fits_def)
  have m: "(0x100000000 :: int64) <s 0x500000000"
    by (simp add: word_sless_alt)
  have st0: "state (svc_at (world1\<lparr>wake_now := 0\<rparr>) 1) = SVC_STATE_DOWN
             \<or> state (svc_at (world1\<lparr>wake_now := 0\<rparr>) 1) = SVC_STATE_START"
    by (simp add: world1_def svc_at_def new_service_def)
  have al0: "active_linked (svc_at (world1\<lparr>wake_now := 0\<rparr>) 1)
             \<longrightarrow> 1 \<in> set (svc_active_list (world1\<lparr>wake_now := 0\<rparr>))"
    by (simp add: world1_def svc_at_def new_service_def)
  have df0: "diff_fits 0 (wake_now (world1\<lparr>wake_now := 0\<rparr>))"
    by (simp add: diff_fits_def)
  show ?thesis
    using handle_start_effect [OF st al' df] handle_start_effect [OF st0 al0 df0] st al df
    by (simp add: now m Let_def)
qed

subsection \<open>The state machine\<close>

lemma world_update_same [simp]: "w\<lparr>wake_next := wake_next w\<rparr> = w"
  by simp

lemma set_active_noop: "active_linked (svc_at w p) = b \<Longrightarrow> svc_set_active w p b = w"
  by (auto simp: svc_set_active_def)

lemma run_waiting_linked:
  "active_linked (svc_at w p) \<Longrightarrow>
   svc_run_waiting w p =
     w\<lparr>wake_next := (if start_time (svc_at w p) <s wake_next w then start_time (svc_at w p)
                      else wake_next w)\<rparr>"
  by (simp add: svc_run_waiting_def Let_def set_active_noop word_sless_alt)

lemma svc_run_REAPED:
  "state (svc_at w p) = SVC_STATE_REAPED \<Longrightarrow> svc_run cfg w p = svc_run cfg (svc_run_reaped cfg w p) p"
  by (subst svc_run.simps) simp

lemma svc_run_DOWN:
  "state (svc_at w p) = SVC_STATE_DOWN \<Longrightarrow> svc_run cfg w p = Some (svc_set_active w p False)"
  by (subst svc_run.simps) simp

lemma svc_run_START_waiting:
  "state (svc_at w p) = SVC_STATE_START \<Longrightarrow> wake_now w <s start_time (svc_at w p) \<Longrightarrow>
   svc_run cfg w p = Some (svc_run_waiting w p)"
  by (subst svc_run.simps) (simp add: word_sless_alt)

lemma svc_run_START_launch:
  "state (svc_at w p) = SVC_STATE_START \<Longrightarrow> \<not> wake_now w <s start_time (svc_at w p) \<Longrightarrow>
   svc_run cfg w p =
     (if \<not> fst (svc_do_fork w p) then svc_run cfg (svc_run_retry cfg (snd (svc_do_fork w p)) p) p
      else Some (svc_run_started (snd (svc_do_fork w p)) p))"
  by (subst svc_run.simps) (simp add: word_sless_alt)

text \<open>
  Claim C8. For a record in state START whose start time is still ahead
  (\<open>now < start_time\<close>) and which is linked into the active list, the times being
  such that C defines the two differences that \<open>svc_run\<close> takes, \<open>svc_run\<close> returns
  with the whole state unchanged (no launch and no fork, every field of the record
  and both lists as they were) but for the wake deadline, which becomes the smaller
  of the existing deadline and \<open>start_time\<close>.
\<close>

theorem run_waiting_frame:
  assumes "state (svc_at w p) = SVC_STATE_START"
    and "wake_now w <s start_time (svc_at w p)"
    and "active_linked (svc_at w p)"
    and "diff_fits (start_time (svc_at w p)) (wake_now w)"
    and "diff_fits (start_time (svc_at w p)) (wake_next w)"
  shows "svc_run cfg w p =
           Some (w\<lparr>wake_next := (if start_time (svc_at w p) <s wake_next w
                                  then start_time (svc_at w p) else wake_next w)\<rparr>)"
  using svc_run_START_waiting [OF assms(1,2), of cfg] run_waiting_linked [OF assms(3)]
  by simp

lemma waiting_facts:
  "state (svc_at world_waiting 1) = SVC_STATE_START"
  "start_time (svc_at world_waiting 1) = 0x500000000"
  "active_linked (svc_at world_waiting 1)"
  "wake_now world_waiting = 0x100000000"
  "wake_next world_waiting = 0x100000000"
  by (simp_all add: world_waiting_def world1_def world0_def svc_at_def new_service_def)

lemma waiting_far_facts:
  "state (svc_at world_waiting_far 1) = SVC_STATE_START"
  "start_time (svc_at world_waiting_far 1) = 0x500000000"
  "active_linked (svc_at world_waiting_far 1)"
  "wake_now world_waiting_far = 0x100000000"
  "wake_next world_waiting_far = 0xC800000000"
  "forks world_waiting_far = 0"
  "launches world_waiting_far = 0"
  "svc_active_list world_waiting_far = [1]"
  by (simp_all add: world_waiting_far_def world_waiting_def world1_def world0_def svc_at_def new_service_def)

lemma word_facts:
  "(0x100000000::int64) <s 0x500000000"
  "(0x500000000::int64) <s 0xC800000000"
  "\<not> (0x500000000::int64) <s 0x100000000"
  "diff_fits 0x500000000 0x100000000"
  "diff_fits 0x500000000 0xC800000000"
  by (simp_all add: word_sless_alt diff_fits_def)

text \<open>
  The theorem at work: the record that waits for the fifth second, with the clock at
  the first and the wake deadline at the 200th, is left alone, and the deadline comes
  down to the fifth second; with the deadline at the first second nothing changes at
  all.
\<close>

theorem run_waiting_frame_witness:
  "state (svc_at world_waiting_far 1) = SVC_STATE_START
   \<and> wake_now world_waiting_far <s start_time (svc_at world_waiting_far 1)
   \<and> active_linked (svc_at world_waiting_far 1)
   \<and> diff_fits (start_time (svc_at world_waiting_far 1)) (wake_now world_waiting_far)
   \<and> diff_fits (start_time (svc_at world_waiting_far 1)) (wake_next world_waiting_far)
   \<and> wake_next world_waiting_far = 0xC800000000
   \<and> svc_run cfg0 world_waiting_far 1 = Some (world_waiting_far\<lparr>wake_next := 0x500000000\<rparr>)
   \<and> svc_run cfg0 world_waiting 1 = Some world_waiting"
proof -
  have a: "wake_now world_waiting_far <s start_time (svc_at world_waiting_far 1)"
    by (simp only: waiting_far_facts word_facts)
  have b: "diff_fits (start_time (svc_at world_waiting_far 1)) (wake_now world_waiting_far)"
    by (simp only: waiting_far_facts word_facts)
  have c: "diff_fits (start_time (svc_at world_waiting_far 1)) (wake_next world_waiting_far)"
    by (simp only: waiting_far_facts word_facts)
  have r: "svc_run cfg0 world_waiting_far 1 = Some (world_waiting_far\<lparr>wake_next := 0x500000000\<rparr>)"
    using run_waiting_frame [OF waiting_far_facts(1) a waiting_far_facts(3) b c, of cfg0]
    by (simp only: waiting_far_facts word_facts if_True)
  have a': "wake_now world_waiting <s start_time (svc_at world_waiting 1)"
    by (simp only: waiting_facts word_facts)
  have b': "diff_fits (start_time (svc_at world_waiting 1)) (wake_now world_waiting)"
    by (simp only: waiting_facts word_facts)
  have c': "diff_fits (start_time (svc_at world_waiting 1)) (wake_next world_waiting)"
    by (simp only: waiting_facts word_facts)
  have same: "world_waiting\<lparr>wake_next := 0x100000000\<rparr> = world_waiting"
    using waiting_facts(5) by (metis world_update_same)
  have r': "svc_run cfg0 world_waiting 1 = Some world_waiting"
    using run_waiting_frame [OF waiting_facts(1) a' waiting_facts(3) b' c', of cfg0]
    by (simp only: waiting_facts word_facts if_False same)
  show ?thesis
    using waiting_far_facts(1) a waiting_far_facts(3) b c waiting_far_facts(5) r r'
    by (simp only: simp_thms)
qed

lemma check_sigwake_frame:
  "sig_events w' = sig_events w \<Longrightarrow> sigwake (svc_at w' p) = sigwake (svc_at w p) \<Longrightarrow>
   autostart_signals (svc_at w' p) = autostart_signals (svc_at w p) \<Longrightarrow>
   svc_check_sigwake cfg w' p = svc_check_sigwake cfg w p"
  by (simp add: svc_check_sigwake_def)

lemma sint_sum:
  assumes "sum_fits (a::int64) b"
  shows "sint (a + b) = sint a + sint b"
proof -
  have "sint (a + b) = signed_take_bit 63 (sint a + sint b)"
    by (simp add: sint_word_ariths)
  also have "\<dots> = sint a + sint b"
    using assms by (simp add: signed_take_bit_int_eq_self sum_fits_def)
  finally show ?thesis .
qed

lemma later_of_sum:
  assumes "sum_fits now d" "0 \<le> sint d"
  shows "later_of (now + d) now = now + d"
proof (cases "0 < sint d")
  case True
  then show ?thesis by (simp add: later_of_def sint_sum [OF assms(1)])
next
  case False
  then have "sint d = 0" using assms(2) by simp
  then have "d = 0" by (metis signed_0 signed_word_eqI sint_0)
  then show ?thesis by (simp add: later_of_def)
qed

lemma later_of_same: "later_of now now = now"
  by (simp add: later_of_def)

lemma sless_sum:
  assumes "sum_fits now d"
  shows "now <s now + d \<longleftrightarrow> 0 < sint d"
  by (simp add: word_sless_alt sint_sum [OF assms])

lemma sint_nonzero: "(x::int64) \<noteq> 0 \<Longrightarrow> sint x \<noteq> 0"
  by (metis signed_0 signed_word_eqI sint_0)

lemma handle_start_fields:
  "launches (snd (svc_handle_start w p t)) = launches w"
  "forks (snd (svc_handle_start w p t)) = forks w"
  "launch_envs (snd (svc_handle_start w p t)) = launch_envs w"
  "sig_events (snd (svc_handle_start w p t)) = sig_events w"
  "svc_by_name_index (snd (svc_handle_start w p t)) = svc_by_name_index w"
  "svc_sigwake_list (snd (svc_handle_start w p t)) = svc_sigwake_list w"
  by (simp_all add: svc_handle_start_def Let_def)

lemma run_reaped_down:
  assumes "\<not> (auto_restart (svc_at w p) \<or> svc_check_sigwake cfg w p)"
  shows "svc_run_reaped cfg w p = svc_upd p (\<lambda>s. s\<lparr>state := SVC_STATE_DOWN\<rparr>) (svc_notify_state w p)"
proof -
  have "svc_check_sigwake cfg (svc_upd p (\<lambda>s. s\<lparr>state := SVC_STATE_DOWN\<rparr>) (svc_notify_state w p)) p
        = svc_check_sigwake cfg w p"
    by (rule check_sigwake_frame) simp_all
  then show ?thesis using assms by (simp add: svc_run_reaped_def Let_def)
qed

text \<open>A run from REAPED without a reason to restart.\<close>

lemma run_reaped_to_down:
  assumes st: "state (svc_at w p) = SVC_STATE_REAPED"
    and no: "\<not> (auto_restart (svc_at w p) \<or> svc_check_sigwake cfg w p)"
  shows "svc_run cfg w p \<noteq> None"
    and "svc_at (the (svc_run cfg w p)) p = (svc_at w p)\<lparr>state := SVC_STATE_DOWN, active_linked := False\<rparr>"
    and "svc_active_list (the (svc_run cfg w p)) =
           (if active_linked (svc_at w p) then remove1 p (svc_active_list w) else svc_active_list w)"
    and "forks (the (svc_run cfg w p)) = forks w"
    and "launches (the (svc_run cfg w p)) = launches w"
    and "wake_next (the (svc_run cfg w p)) = wake_next w"
proof -
  define w3 where "w3 = svc_upd p (\<lambda>s. s\<lparr>state := SVC_STATE_DOWN\<rparr>) (svc_notify_state w p)"
  have r3: "svc_run_reaped cfg w p = w3"
    unfolding w3_def using no by (rule run_reaped_down)
  have s3: "state (svc_at w3 p) = SVC_STATE_DOWN" by (simp add: w3_def)
  have r: "svc_run cfg w p = Some (svc_set_active w3 p False)"
    using svc_run_REAPED [OF st, of cfg] svc_run_DOWN [OF s3, of cfg] by (simp add: r3)
  have rec3: "svc_at w3 p = (svc_at w p)\<lparr>state := SVC_STATE_DOWN\<rparr>" by (simp add: w3_def)
  show "svc_run cfg w p \<noteq> None" by (simp add: r)
  show "svc_at (the (svc_run cfg w p)) p = (svc_at w p)\<lparr>state := SVC_STATE_DOWN, active_linked := False\<rparr>"
    by (simp add: r svc_at_set_active rec3)
  show "svc_active_list (the (svc_run cfg w p)) =
           (if active_linked (svc_at w p) then remove1 p (svc_active_list w) else svc_active_list w)"
    by (simp add: r set_active_list rec3) (simp add: w3_def)
  show "forks (the (svc_run cfg w p)) = forks w" by (simp add: r) (simp add: w3_def)
  show "launches (the (svc_run cfg w p)) = launches w" by (simp add: r) (simp add: w3_def)
  show "wake_next (the (svc_run cfg w p)) = wake_next w" by (simp add: r) (simp add: w3_def)
qed

text \<open>The state after the REAPED case when there is a reason to restart.\<close>

lemma run_reaped_start:
  assumes y: "auto_restart (svc_at w p) \<or> svc_check_sigwake cfg w p"
  defines "T \<equiv> later_of
     (if sint (reap_time (svc_at w p)) - sint (start_time (svc_at w p)) < sint (restart_interval (svc_at w p))
      then wake_now w + restart_interval (svc_at w p) else wake_now w) (wake_now w)"
  shows "svc_at (svc_run_reaped cfg w p) p =
         (svc_at w p)\<lparr>state := SVC_STATE_START, start_time := (if T = 0 then 1 else T),
            pid := 0, reap_time := 0, wait_status := -1, active_linked := True\<rparr>"
    and "wake_now (svc_run_reaped cfg w p) = wake_now w"
    and "wake_next (svc_run_reaped cfg w p) = wake_now w"
    and "svc_active_list (svc_run_reaped cfg w p) =
           (if active_linked (svc_at w p) then svc_active_list w else p # svc_active_list w)"
    and "forks (svc_run_reaped cfg w p) = forks w"
    and "launches (svc_run_reaped cfg w p) = launches w"
    and "launch_envs (svc_run_reaped cfg w p) = launch_envs w"
proof -
  let ?w2 = "svc_upd p (\<lambda>s. s\<lparr>state := SVC_STATE_DOWN\<rparr>) (svc_notify_state w p)"
  define sched where "sched =
     (if sint (reap_time (svc_at w p)) - sint (start_time (svc_at w p)) < sint (restart_interval (svc_at w p))
      then wake_now w + restart_interval (svc_at w p) else wake_now w)"
  have T: "T = later_of sched (wake_now w)" by (simp add: T_def sched_def)
  have c: "svc_check_sigwake cfg ?w2 p = svc_check_sigwake cfg w p"
    by (rule check_sigwake_frame) simp_all
  have st: "state (svc_at ?w2 p) = SVC_STATE_DOWN \<or> state (svc_at ?w2 p) = SVC_STATE_START"
    by simp
  have r: "svc_run_reaped cfg w p = svc_notify_state (snd (svc_handle_start ?w2 p sched)) p"
    using y c by (simp add: svc_run_reaped_def Let_def sched_def)
  have now2: "wake_now ?w2 = wake_now w" by simp
  have "svc_at (svc_run_reaped cfg w p) p =
        (svc_at ?w2 p)\<lparr>state := SVC_STATE_START,
            start_time := (if later_of sched (wake_now ?w2) = 0 then 1 else later_of sched (wake_now ?w2)),
            pid := 0, reap_time := 0, wait_status := -1, active_linked := True\<rparr>"
    unfolding r by (simp only: svc_at_notify handle_start_ok(2) [OF st])
  also have "\<dots> = (svc_at w p)\<lparr>state := SVC_STATE_START,
            start_time := (if T = 0 then 1 else T),
            pid := 0, reap_time := 0, wait_status := -1, active_linked := True\<rparr>"
    by (simp only: now2 T [symmetric]) simp
  finally show "svc_at (svc_run_reaped cfg w p) p =
         (svc_at w p)\<lparr>state := SVC_STATE_START, start_time := (if T = 0 then 1 else T),
            pid := 0, reap_time := 0, wait_status := -1, active_linked := True\<rparr>" .
  show "wake_now (svc_run_reaped cfg w p) = wake_now w"
    unfolding r by (simp add: handle_start_ok(5) [OF st])
  show "wake_next (svc_run_reaped cfg w p) = wake_now w"
    unfolding r by (simp add: handle_start_ok(4) [OF st])
  show "svc_active_list (svc_run_reaped cfg w p) =
           (if active_linked (svc_at w p) then svc_active_list w else p # svc_active_list w)"
    unfolding r by (simp add: handle_start_ok(3) [OF st])
  show "forks (svc_run_reaped cfg w p) = forks w"
    unfolding r by (simp add: handle_start_fields)
  show "launches (svc_run_reaped cfg w p) = launches w"
    unfolding r by (simp add: handle_start_fields)
  show "launch_envs (svc_run_reaped cfg w p) = launch_envs w"
    unfolding r by (simp add: handle_start_fields)
qed

text \<open>A record in START whose time is ahead: \<open>svc_run\<close> returns.\<close>

lemma run_start_ahead:
  assumes st: "state (svc_at w p) = SVC_STATE_START"
    and ah: "wake_now w <s start_time (svc_at w p)"
    and al: "active_linked (svc_at w p)"
    and nx: "wake_next w = wake_now w"
  shows "svc_run cfg w p = Some w"
proof -
  have "\<not> start_time (svc_at w p) <s wake_next w"
    using ah nx by (simp add: word_sless_alt)
  then show ?thesis
    using svc_run_START_waiting [OF st ah, of cfg] run_waiting_linked [OF al] by simp
qed

text \<open>What \<open>svc_do_fork\<close> answers and leaves.\<close>

lemma do_fork_result:
  defines "reaches w p \<equiv>
      (uses_control_socket (svc_at w p) \<or> uses_control_event (svc_at w p) \<or> uses_control_cmd (svc_at w p)
         \<longrightarrow> ctl_alloc_ok (launch_envs w (launches w)) \<and> socketpair_ok (launch_envs w (launches w))
             \<and> ctl_ctor_ok (launch_envs w (launches w)))"
  shows "fst (svc_do_fork w p) \<longleftrightarrow> reaches w p \<and> 0 \<le> fork_result (launch_envs w (launches w))"
    and "fst (svc_do_fork w p) \<Longrightarrow>
           svc_at (snd (svc_do_fork w p)) p = (svc_at w p)\<lparr>pid := fork_result (launch_envs w (launches w))\<rparr>"
    and "\<not> fst (svc_do_fork w p) \<Longrightarrow> svc_at (snd (svc_do_fork w p)) p = svc_at w p"
    and "launches (snd (svc_do_fork w p)) = Suc (launches w)"
    and "forks (snd (svc_do_fork w p)) = (if reaches w p then Suc (forks w) else forks w)"
    and "wake_now (snd (svc_do_fork w p)) = wake_now w"
    and "wake_next (snd (svc_do_fork w p)) = wake_next w"
    and "svc_active_list (snd (svc_do_fork w p)) = svc_active_list w"
  by (auto simp: svc_do_fork_def Let_def reaches_def svc_at_change_pid)

lemma svc_at_run_started:
  "svc_at (svc_run_started w p) p =
     (svc_at w p)\<lparr>start_time := (if wake_now w \<noteq> 0 then wake_now w else 1),
                   state := SVC_STATE_UP, active_linked := False\<rparr>"
  by (auto simp: svc_run_started_def Let_def svc_at_set_active)

lemma run_started_fields:
  "forks (svc_run_started w p) = forks w"
  "launches (svc_run_started w p) = launches w"
  "wake_now (svc_run_started w p) = wake_now w"
  "wake_next (svc_run_started w p) = wake_next w"
  "svc_active_list (svc_run_started w p) =
     (if active_linked (svc_at w p) then remove1 p (svc_active_list w) else svc_active_list w)"
  by (simp_all add: svc_run_started_def Let_def set_active_list)

text \<open>The time that the REAPED case passes to \<open>svc_handle_start\<close> is not before \<open>now\<close>.\<close>

lemma restart_time:
  assumes ri: "0 \<le> sint (restart_interval (svc_at w p))"
    and f2: "sum_fits (wake_now w) (restart_interval (svc_at w p))"
  shows "later_of
     (if sint (reap_time (svc_at w p)) - sint (start_time (svc_at w p)) < sint (restart_interval (svc_at w p))
      then wake_now w + restart_interval (svc_at w p) else wake_now w) (wake_now w)
   = (if sint (reap_time (svc_at w p)) - sint (start_time (svc_at w p)) < sint (restart_interval (svc_at w p))
      then wake_now w + restart_interval (svc_at w p) else wake_now w)"
  by (simp add: later_of_sum [OF f2 ri] later_of_same)

lemma run_reaped_delayed:
  assumes st: "state (svc_at w p) = SVC_STATE_REAPED"
    and y: "auto_restart (svc_at w p) \<or> svc_check_sigwake cfg w p"
    and ri: "0 \<le> sint (restart_interval (svc_at w p))"
    and f2: "sum_fits (wake_now w) (restart_interval (svc_at w p))"
    and T: "T = (if sint (reap_time (svc_at w p)) - sint (start_time (svc_at w p))
                      < sint (restart_interval (svc_at w p))
                 then wake_now w + restart_interval (svc_at w p) else wake_now w)"
    and ah: "wake_now w <s (if T = 0 then 1 else T)"
  shows "svc_run cfg w p \<noteq> None"
    and "svc_at (the (svc_run cfg w p)) p =
         (svc_at w p)\<lparr>state := SVC_STATE_START, start_time := (if T = 0 then 1 else T),
            pid := 0, reap_time := 0, wait_status := -1, active_linked := True\<rparr>"
    and "svc_active_list (the (svc_run cfg w p)) =
           (if active_linked (svc_at w p) then svc_active_list w else p # svc_active_list w)"
    and "forks (the (svc_run cfg w p)) = forks w"
    and "launches (the (svc_run cfg w p)) = launches w"
    and "wake_next (the (svc_run cfg w p)) = wake_now w"
proof -
  define w3 where "w3 = svc_run_reaped cfg w p"
  note rs = run_reaped_start [OF y, folded w3_def, unfolded restart_time [OF ri f2], folded T]
  have s3: "state (svc_at w3 p) = SVC_STATE_START" by (simp add: rs(1))
  have a3: "active_linked (svc_at w3 p)" by (simp add: rs(1))
  have t3: "wake_now w3 <s start_time (svc_at w3 p)" using ah by (simp add: rs(1,2))
  have n3: "wake_next w3 = wake_now w3" by (simp add: rs(2,3))
  have r: "svc_run cfg w p = Some w3"
    using svc_run_REAPED [OF st, of cfg] run_start_ahead [OF s3 t3 a3 n3, of cfg]
    by (simp add: w3_def)
  show "svc_run cfg w p \<noteq> None" by (simp add: r)
  show "svc_at (the (svc_run cfg w p)) p =
         (svc_at w p)\<lparr>state := SVC_STATE_START, start_time := (if T = 0 then 1 else T),
            pid := 0, reap_time := 0, wait_status := -1, active_linked := True\<rparr>"
    by (simp add: r rs(1))
  show "svc_active_list (the (svc_run cfg w p)) =
           (if active_linked (svc_at w p) then svc_active_list w else p # svc_active_list w)"
    by (simp add: r rs(4))
  show "forks (the (svc_run cfg w p)) = forks w" by (simp add: r rs)
  show "launches (the (svc_run cfg w p)) = launches w" by (simp add: r rs)
  show "wake_next (the (svc_run cfg w p)) = wake_now w" by (simp add: r rs)
qed

text \<open>A restart that is due at once happens at a time other than 0.\<close>

lemma due_now_nonzero:
  assumes ri: "0 \<le> sint (restart_interval (svc_at w p))"
    and f2: "sum_fits (wake_now w) (restart_interval (svc_at w p))"
    and T: "T = (if sint (reap_time (svc_at w p)) - sint (start_time (svc_at w p))
                      < sint (restart_interval (svc_at w p))
                 then wake_now w + restart_interval (svc_at w p) else wake_now w)"
    and due: "\<not> wake_now w <s (if T = 0 then 1 else T)"
  shows "wake_now w \<noteq> 0" and "T = wake_now w"
proof -
  have ge: "sint (wake_now w) \<le> sint T"
    using ri by (simp add: T sint_sum [OF f2])
  show nz: "wake_now w \<noteq> 0"
  proof
    assume z: "wake_now w = 0"
    show False
    proof (cases "T = 0")
      case True
      then show ?thesis using due z by (simp add: word_sless_alt)
    next
      case False
      then have "sint T \<noteq> 0" by (rule sint_nonzero)
      then show ?thesis using due z ge False by (simp add: word_sless_alt)
    qed
  qed
  have "sint T = sint (wake_now w)"
  proof (cases "T = 0")
    case True
    then have "sint (wake_now w) \<le> 0" using ge by simp
    moreover have "1 \<le> sint (wake_now w)" using due True by (simp add: word_sless_alt)
    ultimately show ?thesis by simp
  next
    case False
    then show ?thesis using due ge by (simp add: word_sless_alt)
  qed
  then show "T = wake_now w" by (rule signed_word_eqI)
qed

lemma run_reaped_launched:
  assumes st: "state (svc_at w p) = SVC_STATE_REAPED"
    and y: "auto_restart (svc_at w p) \<or> svc_check_sigwake cfg w p"
    and ri: "0 \<le> sint (restart_interval (svc_at w p))"
    and f2: "sum_fits (wake_now w) (restart_interval (svc_at w p))"
    and T: "T = (if sint (reap_time (svc_at w p)) - sint (start_time (svc_at w p))
                      < sint (restart_interval (svc_at w p))
                 then wake_now w + restart_interval (svc_at w p) else wake_now w)"
    and due: "\<not> wake_now w <s (if T = 0 then 1 else T)"
    and reach: "uses_control_socket (svc_at w p) \<or> uses_control_event (svc_at w p)
                  \<or> uses_control_cmd (svc_at w p)
                \<longrightarrow> ctl_alloc_ok (launch_envs w (launches w)) \<and> socketpair_ok (launch_envs w (launches w))
                    \<and> ctl_ctor_ok (launch_envs w (launches w))"
    and child: "0 \<le> fork_result (launch_envs w (launches w))"
  shows "svc_run cfg w p \<noteq> None"
    and "svc_at (the (svc_run cfg w p)) p =
         (svc_at w p)\<lparr>state := SVC_STATE_UP, start_time := wake_now w,
            pid := fork_result (launch_envs w (launches w)), reap_time := 0, wait_status := -1,
            active_linked := False\<rparr>"
    and "svc_active_list (the (svc_run cfg w p)) =
           (if active_linked (svc_at w p) then remove1 p (svc_active_list w) else svc_active_list w)"
    and "forks (the (svc_run cfg w p)) = Suc (forks w)"
    and "launches (the (svc_run cfg w p)) = Suc (launches w)"
proof -
  define w3 where "w3 = svc_run_reaped cfg w p"
  note rs = run_reaped_start [OF y, folded w3_def, unfolded restart_time [OF ri f2], folded T]
  note nz = due_now_nonzero [OF ri f2 T due]
  have s3: "state (svc_at w3 p) = SVC_STATE_START" by (simp add: rs(1))
  have t3: "\<not> wake_now w3 <s start_time (svc_at w3 p)" using due by (simp add: rs(1,2))
  have fl: "uses_control_socket (svc_at w3 p) = uses_control_socket (svc_at w p)"
    "uses_control_event (svc_at w3 p) = uses_control_event (svc_at w p)"
    "uses_control_cmd (svc_at w3 p) = uses_control_cmd (svc_at w p)"
    by (simp_all add: rs(1))
  have ok: "fst (svc_do_fork w3 p)"
    using reach child by (simp add: do_fork_result(1) fl rs(6,7))
  define w4 where "w4 = snd (svc_do_fork w3 p)"
  have rec4: "svc_at w4 p = (svc_at w3 p)\<lparr>pid := fork_result (launch_envs w (launches w))\<rparr>"
    unfolding w4_def using do_fork_result(2) [OF ok] by (simp add: rs(6,7))
  have r: "svc_run cfg w p = Some (svc_run_started w4 p)"
    using svc_run_REAPED [OF st, of cfg] svc_run_START_launch [OF s3 t3, of cfg] ok
    by (simp add: w3_def w4_def)
  have now4: "wake_now w4 = wake_now w" by (simp add: w4_def do_fork_result(6) rs(2))
  show "svc_run cfg w p \<noteq> None" by (simp add: r)
  show "svc_at (the (svc_run cfg w p)) p =
         (svc_at w p)\<lparr>state := SVC_STATE_UP, start_time := wake_now w,
            pid := fork_result (launch_envs w (launches w)), reap_time := 0, wait_status := -1,
            active_linked := False\<rparr>"
    using nz(1) by (simp add: r svc_at_run_started rec4 now4 rs(1))
  show "svc_active_list (the (svc_run cfg w p)) =
           (if active_linked (svc_at w p) then remove1 p (svc_active_list w) else svc_active_list w)"
    by (simp add: r run_started_fields rec4 rs(1)) (simp add: w4_def do_fork_result(8) rs(4))
  show "forks (the (svc_run cfg w p)) = Suc (forks w)"
    using reach by (simp add: r run_started_fields w4_def do_fork_result(5) fl rs(5,6,7))
  show "launches (the (svc_run cfg w p)) = Suc (launches w)"
    by (simp add: r run_started_fields w4_def do_fork_result(4) rs(6))
qed

lemma run_reaped_retry:
  assumes st: "state (svc_at w p) = SVC_STATE_REAPED"
    and y: "auto_restart (svc_at w p) \<or> svc_check_sigwake cfg w p"
    and ri: "0 \<le> sint (restart_interval (svc_at w p))"
    and f2: "sum_fits (wake_now w) (restart_interval (svc_at w p))"
    and frd: "0 <s FORK_RETRY_DELAY cfg"
    and f3: "sum_fits (wake_now w) (FORK_RETRY_DELAY cfg)"
    and T: "T = (if sint (reap_time (svc_at w p)) - sint (start_time (svc_at w p))
                      < sint (restart_interval (svc_at w p))
                 then wake_now w + restart_interval (svc_at w p) else wake_now w)"
    and due: "\<not> wake_now w <s (if T = 0 then 1 else T)"
    and fail: "\<not> ((uses_control_socket (svc_at w p) \<or> uses_control_event (svc_at w p)
                  \<or> uses_control_cmd (svc_at w p)
                \<longrightarrow> ctl_alloc_ok (launch_envs w (launches w)) \<and> socketpair_ok (launch_envs w (launches w))
                    \<and> ctl_ctor_ok (launch_envs w (launches w)))
               \<and> 0 \<le> fork_result (launch_envs w (launches w)))"
  shows "svc_run cfg w p \<noteq> None"
    and "svc_at (the (svc_run cfg w p)) p =
         (svc_at w p)\<lparr>state := SVC_STATE_START,
            start_time := (if wake_now w + FORK_RETRY_DELAY cfg = 0 then 1
                           else wake_now w + FORK_RETRY_DELAY cfg),
            pid := 0, reap_time := 0, wait_status := -1, active_linked := True\<rparr>"
    and "svc_active_list (the (svc_run cfg w p)) =
           (if active_linked (svc_at w p) then svc_active_list w else p # svc_active_list w)"
    and "launches (the (svc_run cfg w p)) = Suc (launches w)"
    and "wake_next (the (svc_run cfg w p)) = wake_now w"
    and "forks (the (svc_run cfg w p)) =
           (if uses_control_socket (svc_at w p) \<or> uses_control_event (svc_at w p)
                  \<or> uses_control_cmd (svc_at w p)
                \<longrightarrow> ctl_alloc_ok (launch_envs w (launches w)) \<and> socketpair_ok (launch_envs w (launches w))
                    \<and> ctl_ctor_ok (launch_envs w (launches w))
            then Suc (forks w) else forks w)"
proof -
  define w3 where "w3 = svc_run_reaped cfg w p"
  note rs = run_reaped_start [OF y, folded w3_def, unfolded restart_time [OF ri f2], folded T]
  have s3: "state (svc_at w3 p) = SVC_STATE_START" by (simp add: rs(1))
  have t3: "\<not> wake_now w3 <s start_time (svc_at w3 p)" using due by (simp add: rs(1,2))
  have fl: "uses_control_socket (svc_at w3 p) = uses_control_socket (svc_at w p)"
    "uses_control_event (svc_at w3 p) = uses_control_event (svc_at w p)"
    "uses_control_cmd (svc_at w3 p) = uses_control_cmd (svc_at w p)"
    by (simp_all add: rs(1))
  have no: "\<not> fst (svc_do_fork w3 p)"
    using fail by (simp add: do_fork_result(1) fl rs(6,7))
  define w4 where "w4 = snd (svc_do_fork w3 p)"
  have rec4: "svc_at w4 p = svc_at w3 p"
    unfolding w4_def by (rule do_fork_result(3) [OF no])
  have now4: "wake_now w4 = wake_now w" by (simp add: w4_def do_fork_result(6) rs(2))
  define w5 where "w5 = svc_run_retry cfg w4 p"
  have r5: "w5 = snd (svc_handle_start w4 p (wake_now w + FORK_RETRY_DELAY cfg))"
    by (simp add: w5_def svc_run_retry_def now4)
  have s4: "state (svc_at w4 p) = SVC_STATE_DOWN \<or> state (svc_at w4 p) = SVC_STATE_START"
    by (simp add: rec4 s3)
  have pos: "0 \<le> sint (FORK_RETRY_DELAY cfg)" "0 < sint (FORK_RETRY_DELAY cfg)"
    using frd by (simp_all add: word_sless_alt)
  have lt: "later_of (wake_now w + FORK_RETRY_DELAY cfg) (wake_now w4) = wake_now w + FORK_RETRY_DELAY cfg"
    unfolding now4 by (rule later_of_sum [OF f3 pos(1)])
  note hs = handle_start_ok [OF s4, of "wake_now w + FORK_RETRY_DELAY cfg", folded r5, unfolded lt]
  have rec5: "svc_at w5 p =
         (svc_at w p)\<lparr>state := SVC_STATE_START,
            start_time := (if wake_now w + FORK_RETRY_DELAY cfg = 0 then 1
                           else wake_now w + FORK_RETRY_DELAY cfg),
            pid := 0, reap_time := 0, wait_status := -1, active_linked := True\<rparr>"
    by (simp add: hs(2) rec4 rs(1))
  have s5: "state (svc_at w5 p) = SVC_STATE_START" by (simp add: rec5)
  have a5: "active_linked (svc_at w5 p)" by (simp add: rec5)
  have now5: "wake_now w5 = wake_now w" by (simp add: hs(5) now4)
  have n5: "wake_next w5 = wake_now w5" by (simp add: hs(4) now5 now4)
  have t5: "wake_now w5 <s start_time (svc_at w5 p)"
  proof (cases "wake_now w + FORK_RETRY_DELAY cfg = 0")
    case True
    then have "sint (wake_now w) + sint (FORK_RETRY_DELAY cfg) = 0"
      using sint_sum [OF f3] by simp
    then have "sint (wake_now w) < 1" using pos(2) by simp
    then show ?thesis using True by (simp add: rec5 now5 word_sless_alt)
  next
    case False
    then show ?thesis using pos(2) by (simp add: rec5 now5 sless_sum [OF f3])
  qed
  have r: "svc_run cfg w p = Some w5"
    using svc_run_REAPED [OF st, of cfg] svc_run_START_launch [OF s3 t3, of cfg] no
      run_start_ahead [OF s5 t5 a5 n5, of cfg]
    by (simp add: w3_def w4_def w5_def)
  have al3: "active_linked (svc_at w4 p)" by (simp add: rec4 rs(1))
  show "svc_run cfg w p \<noteq> None" by (simp add: r)
  show "svc_at (the (svc_run cfg w p)) p =
         (svc_at w p)\<lparr>state := SVC_STATE_START,
            start_time := (if wake_now w + FORK_RETRY_DELAY cfg = 0 then 1
                           else wake_now w + FORK_RETRY_DELAY cfg),
            pid := 0, reap_time := 0, wait_status := -1, active_linked := True\<rparr>"
    by (simp add: r rec5)
  show "svc_active_list (the (svc_run cfg w p)) =
           (if active_linked (svc_at w p) then svc_active_list w else p # svc_active_list w)"
    by (simp add: r hs(3) al3) (simp add: w4_def do_fork_result(8) rs(4))
  show "launches (the (svc_run cfg w p)) = Suc (launches w)"
    by (simp add: r r5 handle_start_fields) (simp add: w4_def do_fork_result(4) rs(6))
  show "wake_next (the (svc_run cfg w p)) = wake_now w"
    by (simp add: r hs(4) now4)
  show "forks (the (svc_run cfg w p)) =
           (if uses_control_socket (svc_at w p) \<or> uses_control_event (svc_at w p)
                  \<or> uses_control_cmd (svc_at w p)
                \<longrightarrow> ctl_alloc_ok (launch_envs w (launches w)) \<and> socketpair_ok (launch_envs w (launches w))
                    \<and> ctl_ctor_ok (launch_envs w (launches w))
            then Suc (forks w) else forks w)"
    by (simp add: r r5 handle_start_fields) (simp add: w4_def do_fork_result(5) fl rs(5,6,7))
qed

text \<open>
  Claim C2, as amended. For a record in state REAPED, with a restart interval that
  is not negative, a positive \<open>FORK_RETRY_DELAY\<close> and times whose difference and sums
  C defines, one call to \<open>svc_run\<close> returns, and it has gone through the REAPED case and
  dispatched again on the result within that call:

  \<^item> if neither \<open>auto_restart\<close> nor a pending trigger signal is present, the record is
    in DOWN and off the active list, with no launch;
  \<^item> otherwise a start is set for \<open>S\<close>: \<open>now + restart_interval\<close> when
    \<open>reap_time - start_time < restart_interval\<close> and \<open>now\<close> otherwise, a time of 0
    being stored as 1. If \<open>S\<close> is ahead of \<open>now\<close>, the record is in START with
    \<open>start_time = S\<close>, \<open>pid\<close> and \<open>reap_time\<close> 0, \<open>wait_status\<close> -1, on the active
    list, the wake deadline at \<open>now\<close>, with no launch;
  \<^item> if \<open>S\<close> is due at once, the same call launches the service. When the launch
    succeeds (controller and socket pair as far as the record wants them, and
    \<open>fork\<close> returning the child's pid), the record is in UP with that pid and
    \<open>start_time = now\<close>, off the active list, one fork made. When it fails, the
    record is in START again, with \<open>start_time = now + FORK_RETRY_DELAY\<close> (0 stored
    as 1), on the active list, the wake deadline at \<open>now\<close>.
\<close>

theorem run_reaped_transition:
  assumes "state (svc_at w p) = SVC_STATE_REAPED"
    and "0 \<le> sint (restart_interval (svc_at w p))"
    and "0 <s FORK_RETRY_DELAY cfg"
    and "diff_fits (reap_time (svc_at w p)) (start_time (svc_at w p))"
    and "sum_fits (wake_now w) (restart_interval (svc_at w p))"
    and "sum_fits (wake_now w) (FORK_RETRY_DELAY cfg)"
  shows "svc_run cfg w p \<noteq> None \<and>
    (let svc = svc_at w p; now = wake_now w; env = launch_envs w (launches w);
         w' = the (svc_run cfg w p);
         restart = (auto_restart svc \<or> svc_check_sigwake cfg w p);
         T = (if sint (reap_time svc) - sint (start_time svc) < sint (restart_interval svc)
              then now + restart_interval svc else now);
         S = (if T = 0 then 1 else T);
         R = (if now + FORK_RETRY_DELAY cfg = 0 then 1 else now + FORK_RETRY_DELAY cfg);
         reaches_fork =
           (uses_control_socket svc \<or> uses_control_event svc \<or> uses_control_cmd svc
              \<longrightarrow> ctl_alloc_ok env \<and> socketpair_ok env \<and> ctl_ctor_ok env)
     in (\<not> restart \<longrightarrow>
           svc_at w' p = svc\<lparr>state := SVC_STATE_DOWN, active_linked := False\<rparr>
           \<and> svc_active_list w' =
               (if active_linked svc then remove1 p (svc_active_list w) else svc_active_list w)
           \<and> forks w' = forks w \<and> launches w' = launches w)
      \<and> (restart \<and> now <s S \<longrightarrow>
           svc_at w' p =
             svc\<lparr>state := SVC_STATE_START, start_time := S, pid := 0, reap_time := 0,
                  wait_status := -1, active_linked := True\<rparr>
           \<and> svc_active_list w' =
               (if active_linked svc then svc_active_list w else p # svc_active_list w)
           \<and> wake_next w' = now
           \<and> forks w' = forks w \<and> launches w' = launches w)
      \<and> (restart \<and> \<not> now <s S \<and> reaches_fork \<and> 0 < fork_result env \<longrightarrow>
           svc_at w' p =
             svc\<lparr>state := SVC_STATE_UP, start_time := now, pid := fork_result env,
                  reap_time := 0, wait_status := -1, active_linked := False\<rparr>
           \<and> svc_active_list w' =
               (if active_linked svc then remove1 p (svc_active_list w) else svc_active_list w)
           \<and> forks w' = Suc (forks w) \<and> launches w' = Suc (launches w))
      \<and> (restart \<and> \<not> now <s S \<and> \<not> (reaches_fork \<and> 0 \<le> fork_result env) \<longrightarrow>
           svc_at w' p =
             svc\<lparr>state := SVC_STATE_START, start_time := R, pid := 0, reap_time := 0,
                  wait_status := -1, active_linked := True\<rparr>
           \<and> svc_active_list w' =
               (if active_linked svc then svc_active_list w else p # svc_active_list w)
           \<and> wake_next w' = now
           \<and> forks w' = (if reaches_fork then Suc (forks w) else forks w)
           \<and> launches w' = Suc (launches w)))"
proof -
  define T where "T = (if sint (reap_time (svc_at w p)) - sint (start_time (svc_at w p))
                      < sint (restart_interval (svc_at w p))
                 then wake_now w + restart_interval (svc_at w p) else wake_now w)"
  note st = assms(1) and ri = assms(2) and frd = assms(3) and f2 = assms(5) and f3 = assms(6)
  let ?restart = "auto_restart (svc_at w p) \<or> svc_check_sigwake cfg w p"
  let ?S = "if T = 0 then 1 else T"
  let ?reach = "uses_control_socket (svc_at w p) \<or> uses_control_event (svc_at w p)
                  \<or> uses_control_cmd (svc_at w p)
                \<longrightarrow> ctl_alloc_ok (launch_envs w (launches w)) \<and> socketpair_ok (launch_envs w (launches w))
                    \<and> ctl_ctor_ok (launch_envs w (launches w))"
  have some: "svc_run cfg w p \<noteq> None"
  proof (cases ?restart)
    case False
    then show ?thesis by (rule run_reaped_to_down(1) [OF st])
  next
    case True
    show ?thesis
    proof (cases "wake_now w <s ?S")
      case ah: True
      show ?thesis by (rule run_reaped_delayed(1) [OF st True ri f2 T_def ah])
    next
      case due: False
      show ?thesis
      proof (cases "?reach \<and> 0 \<le> fork_result (launch_envs w (launches w))")
        case ok: True
        show ?thesis
          by (rule run_reaped_launched(1) [OF st True ri f2 T_def due ok [THEN conjunct1] ok [THEN conjunct2]])
      next
        case fail: False
        show ?thesis
          by (rule run_reaped_retry(1) [OF st True ri f2 frd f3 T_def due fail])
      qed
    qed
  qed
  have down: "svc_at (the (svc_run cfg w p)) p = (svc_at w p)\<lparr>state := SVC_STATE_DOWN, active_linked := False\<rparr>
           \<and> svc_active_list (the (svc_run cfg w p)) =
               (if active_linked (svc_at w p) then remove1 p (svc_active_list w) else svc_active_list w)
           \<and> forks (the (svc_run cfg w p)) = forks w \<and> launches (the (svc_run cfg w p)) = launches w"
    if "\<not> ?restart"
    using run_reaped_to_down(2-5) [OF st that] by simp
  have delayed: "svc_at (the (svc_run cfg w p)) p =
             (svc_at w p)\<lparr>state := SVC_STATE_START, start_time := ?S, pid := 0, reap_time := 0,
                  wait_status := -1, active_linked := True\<rparr>
           \<and> svc_active_list (the (svc_run cfg w p)) =
               (if active_linked (svc_at w p) then svc_active_list w else p # svc_active_list w)
           \<and> wake_next (the (svc_run cfg w p)) = wake_now w
           \<and> forks (the (svc_run cfg w p)) = forks w \<and> launches (the (svc_run cfg w p)) = launches w"
    if "?restart \<and> wake_now w <s ?S"
    using run_reaped_delayed(2-6) [OF st that [THEN conjunct1] ri f2 T_def that [THEN conjunct2]]
    by simp
  have launched: "svc_at (the (svc_run cfg w p)) p =
             (svc_at w p)\<lparr>state := SVC_STATE_UP, start_time := wake_now w,
                  pid := fork_result (launch_envs w (launches w)),
                  reap_time := 0, wait_status := -1, active_linked := False\<rparr>
           \<and> svc_active_list (the (svc_run cfg w p)) =
               (if active_linked (svc_at w p) then remove1 p (svc_active_list w) else svc_active_list w)
           \<and> forks (the (svc_run cfg w p)) = Suc (forks w)
           \<and> launches (the (svc_run cfg w p)) = Suc (launches w)"
    if h: "?restart \<and> \<not> wake_now w <s ?S \<and> (?reach) \<and> 0 < fork_result (launch_envs w (launches w))"
  proof -
    from h have y: ?restart and due: "\<not> wake_now w <s ?S" and reach: ?reach
      and child: "0 \<le> fork_result (launch_envs w (launches w))"
      by simp_all
    show ?thesis
      using run_reaped_launched(2-5) [OF st y ri f2 T_def due reach child] by simp
  qed
  have retry: "svc_at (the (svc_run cfg w p)) p =
             (svc_at w p)\<lparr>state := SVC_STATE_START,
                  start_time := (if wake_now w + FORK_RETRY_DELAY cfg = 0 then 1
                                 else wake_now w + FORK_RETRY_DELAY cfg),
                  pid := 0, reap_time := 0, wait_status := -1, active_linked := True\<rparr>
           \<and> svc_active_list (the (svc_run cfg w p)) =
               (if active_linked (svc_at w p) then svc_active_list w else p # svc_active_list w)
           \<and> wake_next (the (svc_run cfg w p)) = wake_now w
           \<and> forks (the (svc_run cfg w p)) = (if ?reach then Suc (forks w) else forks w)
           \<and> launches (the (svc_run cfg w p)) = Suc (launches w)"
    if h: "?restart \<and> \<not> wake_now w <s ?S
           \<and> \<not> ((?reach) \<and> 0 \<le> fork_result (launch_envs w (launches w)))"
  proof -
    from h have y: ?restart and due: "\<not> wake_now w <s ?S"
      and fail: "\<not> ((?reach) \<and> 0 \<le> fork_result (launch_envs w (launches w)))"
      by simp_all
    show ?thesis
      using run_reaped_retry(2-6) [OF st y ri f2 frd f3 T_def due fail] by simp
  qed
  show ?thesis
    unfolding Let_def T_def [symmetric]
    using some down delayed launched retry by blast
qed

lemma reaped_facts:
  "state (svc_at world_reaped 1) = SVC_STATE_REAPED"
  "auto_restart (svc_at world_reaped 1)"
  "reap_time (svc_at world_reaped 1) = 0x300000000"
  "start_time (svc_at world_reaped 1) = 0x100000000"
  "restart_interval (svc_at world_reaped 1) = 0"
  "wake_now world_reaped = 0x300000000"
  "\<not> uses_control_socket (svc_at world_reaped 1)"
  "\<not> uses_control_event (svc_at world_reaped 1)"
  "\<not> uses_control_cmd (svc_at world_reaped 1)"
  "launch_envs world_reaped = (\<lambda>n. launch_ok)"
  "forks world_reaped = 1"
  "launches world_reaped = 1"
  by (simp_all add: world_reaped_def world1_def world0_def svc_at_def new_service_def)

lemma reaped0_facts:
  "state (svc_at world_reaped0 1) = SVC_STATE_REAPED"
  "auto_restart (svc_at world_reaped0 1)"
  "reap_time (svc_at world_reaped0 1) = 0"
  "start_time (svc_at world_reaped0 1) = 1"
  "restart_interval (svc_at world_reaped0 1) = 0"
  "wake_now world_reaped0 = 0"
  by (simp_all add: world_reaped0_def world_reaped_def world1_def world0_def svc_at_def new_service_def)

lemma reaped_delay_facts:
  "state (svc_at world_reaped_delay 1) = SVC_STATE_REAPED"
  "auto_restart (svc_at world_reaped_delay 1)"
  "reap_time (svc_at world_reaped_delay 1) = 0x300000000"
  "start_time (svc_at world_reaped_delay 1) = 0x100000000"
  "restart_interval (svc_at world_reaped_delay 1) = 0xA00000000"
  "wake_now world_reaped_delay = 0x300000000"
  "forks world_reaped_delay = 1"
  "launches world_reaped_delay = 1"
  by (simp_all add: world_reaped_delay_def world_reaped_def world1_def world0_def svc_at_def new_service_def)

lemma reaped_nofork_facts:
  "state (svc_at world_reaped_nofork 1) = SVC_STATE_REAPED"
  "auto_restart (svc_at world_reaped_nofork 1)"
  "reap_time (svc_at world_reaped_nofork 1) = 0x300000000"
  "start_time (svc_at world_reaped_nofork 1) = 0x100000000"
  "restart_interval (svc_at world_reaped_nofork 1) = 0"
  "wake_now world_reaped_nofork = 0x300000000"
  "\<not> uses_control_socket (svc_at world_reaped_nofork 1)"
  "\<not> uses_control_event (svc_at world_reaped_nofork 1)"
  "\<not> uses_control_cmd (svc_at world_reaped_nofork 1)"
  "fork_result (launch_envs world_reaped_nofork (launches world_reaped_nofork)) = -1"
  "forks world_reaped_nofork = 1"
  "launches world_reaped_nofork = 1"
  "fork_result (launch_envs world_reaped_nofork n) = -1"
  by (simp_all add: world_reaped_nofork_def world_reaped_def world1_def world0_def svc_at_def
      new_service_def launch_ok_def)

lemma time_facts:
  "0 \<le> sint (0 :: int64)"
  "0 \<le> sint (0xA00000000 :: int64)"
  "(0 :: int64) <s 0xA00000000"
  "diff_fits 0x300000000 0x100000000"
  "diff_fits 0 1"
  "sum_fits 0x300000000 0"
  "sum_fits 0x300000000 0xA00000000"
  "sum_fits 0 0"
  "sum_fits 0 0xA00000000"
  "sint (0x300000000 :: int64) - sint (0x100000000 :: int64) < sint (0xA00000000 :: int64)"
  "\<not> sint (0x300000000 :: int64) - sint (0x100000000 :: int64) < sint (0 :: int64)"
  "sint (0 :: int64) - sint (1 :: int64) < sint (0 :: int64)"
  "(0x300000000 :: int64) + 0xA00000000 = 0xD00000000"
  "(0x300000000 :: int64) + 0 = 0x300000000"
  "(0 :: int64) + 0 = 0"
  "(0xD00000000 :: int64) \<noteq> 0"
  "(0x300000000 :: int64) \<noteq> 0"
  "(0x300000000 :: int64) <s 0xD00000000"
  "\<not> (0x300000000 :: int64) <s 0x300000000"
  "(0 :: int64) <s 1"
  by (simp_all add: word_sless_alt diff_fits_def sum_fits_def)

lemma cfg0_delay: "FORK_RETRY_DELAY cfg0 = 0xA00000000"
  by (simp add: cfg0_def)

text \<open>
  The claim as stated fails in two ways. A restart that is due at once does not end
  in START: the record reaped at the third second with the interval 0 is launched
  again by the same call and ends in UP. And the time is not always the one the claim
  gives: with the clock at 0 the claim schedules the start at 0, and the record has
  the start time 1.
\<close>

theorem run_reaped_transition_counterexample:
  "(state (svc_at world_reaped 1) = SVC_STATE_REAPED
    \<and> auto_restart (svc_at world_reaped 1)
    \<and> svc_run cfg0 world_reaped 1 \<noteq> None
    \<and> state (svc_at (the (svc_run cfg0 world_reaped 1)) 1) = SVC_STATE_UP)
   \<and> (state (svc_at world_reaped0 1) = SVC_STATE_REAPED
    \<and> auto_restart (svc_at world_reaped0 1)
    \<and> sint (reap_time (svc_at world_reaped0 1)) - sint (start_time (svc_at world_reaped0 1))
         < sint (restart_interval (svc_at world_reaped0 1))
    \<and> wake_now world_reaped0 + restart_interval (svc_at world_reaped0 1) = 0
    \<and> svc_run cfg0 world_reaped0 1 \<noteq> None
    \<and> state (svc_at (the (svc_run cfg0 world_reaped0 1)) 1) = SVC_STATE_START
    \<and> start_time (svc_at (the (svc_run cfg0 world_reaped0 1)) 1) = 1)"
proof -
  have y: "auto_restart (svc_at world_reaped 1) \<or> svc_check_sigwake cfg0 world_reaped 1"
    by (simp only: reaped_facts simp_thms)
  have ri: "0 \<le> sint (restart_interval (svc_at world_reaped 1))"
    by (simp only: reaped_facts time_facts)
  have f2: "sum_fits (wake_now world_reaped) (restart_interval (svc_at world_reaped 1))"
    by (simp only: reaped_facts time_facts)
  have T: "0x300000000 =
      (if sint (reap_time (svc_at world_reaped 1)) - sint (start_time (svc_at world_reaped 1))
            < sint (restart_interval (svc_at world_reaped 1))
       then wake_now world_reaped + restart_interval (svc_at world_reaped 1) else wake_now world_reaped)"
    by (simp only: reaped_facts time_facts if_False)
  have due: "\<not> wake_now world_reaped <s (if (0x300000000 :: int64) = 0 then 1 else 0x300000000)"
    by (simp only: reaped_facts time_facts if_False simp_thms)
  have reach: "uses_control_socket (svc_at world_reaped 1) \<or> uses_control_event (svc_at world_reaped 1)
                  \<or> uses_control_cmd (svc_at world_reaped 1)
                \<longrightarrow> ctl_alloc_ok (launch_envs world_reaped (launches world_reaped))
                    \<and> socketpair_ok (launch_envs world_reaped (launches world_reaped))
                    \<and> ctl_ctor_ok (launch_envs world_reaped (launches world_reaped))"
    by (simp only: reaped_facts simp_thms)
  have child: "0 \<le> fork_result (launch_envs world_reaped (launches world_reaped))"
    by (simp add: reaped_facts(10) launch_ok_def)
  note l = run_reaped_launched [OF reaped_facts(1) y ri f2 T due reach child]
  have A: "svc_run cfg0 world_reaped 1 \<noteq> None
      \<and> state (svc_at (the (svc_run cfg0 world_reaped 1)) 1) = SVC_STATE_UP"
    using l(1) by (simp add: l(2) del: One_nat_def)
  have y0: "auto_restart (svc_at world_reaped0 1) \<or> svc_check_sigwake cfg0 world_reaped0 1"
    by (simp only: reaped0_facts simp_thms)
  have ri0: "0 \<le> sint (restart_interval (svc_at world_reaped0 1))"
    by (simp only: reaped0_facts time_facts)
  have g2: "sum_fits (wake_now world_reaped0) (restart_interval (svc_at world_reaped0 1))"
    by (simp only: reaped0_facts time_facts)
  have T0: "0 =
      (if sint (reap_time (svc_at world_reaped0 1)) - sint (start_time (svc_at world_reaped0 1))
            < sint (restart_interval (svc_at world_reaped0 1))
       then wake_now world_reaped0 + restart_interval (svc_at world_reaped0 1) else wake_now world_reaped0)"
    by (simp only: reaped0_facts time_facts if_True)
  have ah: "wake_now world_reaped0 <s (if (0 :: int64) = 0 then 1 else 0)"
    by (simp only: reaped0_facts time_facts if_True simp_thms)
  note d = run_reaped_delayed [OF reaped0_facts(1) y0 ri0 g2 T0 ah]
  have B: "svc_run cfg0 world_reaped0 1 \<noteq> None
      \<and> state (svc_at (the (svc_run cfg0 world_reaped0 1)) 1) = SVC_STATE_START
      \<and> start_time (svc_at (the (svc_run cfg0 world_reaped0 1)) 1) = 1"
    using d(1) by (simp add: d(2) del: One_nat_def)
  have C: "sint (reap_time (svc_at world_reaped0 1)) - sint (start_time (svc_at world_reaped0 1))
         < sint (restart_interval (svc_at world_reaped0 1))
      \<and> wake_now world_reaped0 + restart_interval (svc_at world_reaped0 1) = 0"
    by (simp only: reaped0_facts time_facts simp_thms)
  show ?thesis
    using A B C reaped_facts(1,2) reaped0_facts(1,2) by (simp only: simp_thms)
qed

text \<open>
  The theorem at work on the record \<open>web\<close>, reaped at the third second after two
  seconds up. With an interval of ten seconds it is set to start at the thirteenth
  second, and \<open>svc_run\<close> returns with it in START. With the interval 0 it is launched at
  once and is in UP with the pid 100 that \<open>fork\<close> returned. With the interval 0 and a
  \<open>fork\<close> that fails it is in START for the thirteenth second, ten seconds of
  \<open>FORK_RETRY_DELAY\<close> away.
\<close>

theorem run_reaped_transition_witness:
  "state (svc_at world_reaped_delay 1) = SVC_STATE_REAPED
   \<and> auto_restart (svc_at world_reaped_delay 1)
   \<and> restart_interval (svc_at world_reaped_delay 1) = 0xA00000000
   \<and> wake_now world_reaped_delay = 0x300000000
   \<and> svc_run cfg0 world_reaped_delay 1 \<noteq> None
   \<and> state (svc_at (the (svc_run cfg0 world_reaped_delay 1)) 1) = SVC_STATE_START
   \<and> start_time (svc_at (the (svc_run cfg0 world_reaped_delay 1)) 1) = 0xD00000000
   \<and> forks (the (svc_run cfg0 world_reaped_delay 1)) = 1
   \<and> state (svc_at world_reaped 1) = SVC_STATE_REAPED
   \<and> restart_interval (svc_at world_reaped 1) = 0
   \<and> svc_run cfg0 world_reaped 1 \<noteq> None
   \<and> state (svc_at (the (svc_run cfg0 world_reaped 1)) 1) = SVC_STATE_UP
   \<and> pid (svc_at (the (svc_run cfg0 world_reaped 1)) 1) = 100
   \<and> start_time (svc_at (the (svc_run cfg0 world_reaped 1)) 1) = 0x300000000
   \<and> forks (the (svc_run cfg0 world_reaped 1)) = 2
   \<and> state (svc_at world_reaped_nofork 1) = SVC_STATE_REAPED
   \<and> fork_result (launch_envs world_reaped_nofork (launches world_reaped_nofork)) = -1
   \<and> svc_run cfg0 world_reaped_nofork 1 \<noteq> None
   \<and> state (svc_at (the (svc_run cfg0 world_reaped_nofork 1)) 1) = SVC_STATE_START
   \<and> start_time (svc_at (the (svc_run cfg0 world_reaped_nofork 1)) 1) = 0xD00000000
   \<and> pid (svc_at (the (svc_run cfg0 world_reaped_nofork 1)) 1) = 0"
proof -
  have frd: "0 <s FORK_RETRY_DELAY cfg0"
    by (simp only: cfg0_delay time_facts)
  have d1: "0 \<le> sint (restart_interval (svc_at world_reaped_delay 1))"
    and d2: "diff_fits (reap_time (svc_at world_reaped_delay 1)) (start_time (svc_at world_reaped_delay 1))"
    and d3: "sum_fits (wake_now world_reaped_delay) (restart_interval (svc_at world_reaped_delay 1))"
    and d4: "sum_fits (wake_now world_reaped_delay) (FORK_RETRY_DELAY cfg0)"
    by (simp_all only: reaped_delay_facts cfg0_delay time_facts)
  note t1 = run_reaped_transition [OF reaped_delay_facts(1) d1 frd d2 d3 d4]
  have r1: "svc_run cfg0 world_reaped_delay 1 \<noteq> None
   \<and> state (svc_at (the (svc_run cfg0 world_reaped_delay 1)) 1) = SVC_STATE_START
   \<and> start_time (svc_at (the (svc_run cfg0 world_reaped_delay 1)) 1) = 0xD00000000
   \<and> forks (the (svc_run cfg0 world_reaped_delay 1)) = 1"
    using t1 by (simp add: Let_def reaped_delay_facts time_facts del: One_nat_def)
  have e1: "0 \<le> sint (restart_interval (svc_at world_reaped 1))"
    and e2: "diff_fits (reap_time (svc_at world_reaped 1)) (start_time (svc_at world_reaped 1))"
    and e3: "sum_fits (wake_now world_reaped) (restart_interval (svc_at world_reaped 1))"
    and e4: "sum_fits (wake_now world_reaped) (FORK_RETRY_DELAY cfg0)"
    by (simp_all only: reaped_facts cfg0_delay time_facts)
  note t2 = run_reaped_transition [OF reaped_facts(1) e1 frd e2 e3 e4]
  have r2: "svc_run cfg0 world_reaped 1 \<noteq> None
   \<and> state (svc_at (the (svc_run cfg0 world_reaped 1)) 1) = SVC_STATE_UP
   \<and> pid (svc_at (the (svc_run cfg0 world_reaped 1)) 1) = 100
   \<and> start_time (svc_at (the (svc_run cfg0 world_reaped 1)) 1) = 0x300000000
   \<and> forks (the (svc_run cfg0 world_reaped 1)) = 2"
    using t2 by (simp add: Let_def reaped_facts time_facts launch_ok_def del: One_nat_def)
  have g1: "0 \<le> sint (restart_interval (svc_at world_reaped_nofork 1))"
    and g2: "diff_fits (reap_time (svc_at world_reaped_nofork 1)) (start_time (svc_at world_reaped_nofork 1))"
    and g3: "sum_fits (wake_now world_reaped_nofork) (restart_interval (svc_at world_reaped_nofork 1))"
    and g4: "sum_fits (wake_now world_reaped_nofork) (FORK_RETRY_DELAY cfg0)"
    by (simp_all only: reaped_nofork_facts cfg0_delay time_facts)
  note t3 = run_reaped_transition [OF reaped_nofork_facts(1) g1 frd g2 g3 g4]
  have r3: "svc_run cfg0 world_reaped_nofork 1 \<noteq> None
   \<and> state (svc_at (the (svc_run cfg0 world_reaped_nofork 1)) 1) = SVC_STATE_START
   \<and> start_time (svc_at (the (svc_run cfg0 world_reaped_nofork 1)) 1) = 0xD00000000
   \<and> pid (svc_at (the (svc_run cfg0 world_reaped_nofork 1)) 1) = 0"
    using t3 by (simp add: Let_def reaped_nofork_facts time_facts cfg0_delay del: One_nat_def)
  show ?thesis
    using r1 r2 r3 reaped_delay_facts(1,2,5,6) reaped_facts(1,5) reaped_nofork_facts(1,10)
    by (simp only: simp_thms)
qed

subsection \<open>Triggers\<close>

lemma split_on_append: "split_on sep (xs @ sep # ys) = split_on sep xs @ split_on sep ys"
proof (induction xs)
  case Nil
  then show ?case by simp
next
  case (Cons x xs)
  then show ?case
    using split_on_nonempty [of sep xs] by (auto split: list.splits)
qed

lemma takeWhile_stop:
  "\<not> P y \<Longrightarrow> takeWhile P (xs @ y # ys) = takeWhile P xs"
  by (induction xs) auto

lemma parsed_tokens_double_tab: "parsed_tokens (pre @ TAB # TAB # rest) = parsed_tokens pre"
proof -
  have "split_on TAB (pre @ TAB # TAB # rest) = split_on TAB pre @ [] # split_on TAB rest"
    by (simp add: split_on_append)
  then show ?thesis
    by (simp add: parsed_tokens_def takeWhile_stop)
qed

lemma parsed_tokens_trailing_tab: "parsed_tokens (pre @ [TAB]) = parsed_tokens pre"
proof -
  have "split_on TAB (pre @ [TAB]) = split_on TAB pre @ [[]]"
    using split_on_append [of TAB pre "[]"] by simp
  then show ?thesis
    by (simp add: parsed_tokens_def takeWhile_stop)
qed

lemma triggers_loop_step:
  assumes t: "strseg_tok_next buf TAB lst = Some (lst', trigger)" and pos: "snd trigger > 0"
  shows "triggers_loop cfg buf lst acc =
         (case trigger_step cfg acc (seg_bytes buf trigger) of
            None \<Rightarrow> None | Some acc' \<Rightarrow> triggers_loop cfg buf lst' acc')"
  using pos
  by (subst triggers_loop.simps)
     (auto simp: t trigger_step_def split: prod.splits option.splits)

lemma triggers_loop_stop:
  assumes t: "strseg_tok_next buf TAB lst = Some (lst', trigger)" and pos: "\<not> snd trigger > 0"
  shows "triggers_loop cfg buf lst acc = Some acc"
  using pos by (subst triggers_loop.simps) (simp add: t)

lemma triggers_loop_end: "triggers_loop cfg buf (off, -1) acc = Some acc"
  by (subst triggers_loop.simps) (simp add: tok_next_end)

lemma triggers_loop_tokens:
  "drop off buf = s \<Longrightarrow>
   triggers_loop cfg buf (off, int (length s)) acc = triggers_fold cfg (parsed_tokens s) acc"
proof (induction s arbitrary: off acc rule: length_induct)
  case (1 s)
  show ?case
  proof (cases "TAB \<in> set s")
    case False
    have t: "strseg_tok_next buf TAB (off, int (length s)) =
             Some ((off + length s + 1, -1), (off, int (length s)))"
      using False "1.prems" by (rule tok_next_last)
    have b: "seg_bytes buf (off, int (length s)) = s"
      using "1.prems" by (simp add: seg_bytes_def)
    show ?thesis
    proof (cases "s = []")
      case True
      then show ?thesis
        using triggers_loop_stop [OF t, of cfg acc] by (simp add: parsed_tokens_def)
    next
      case ne: False
      then have pt: "parsed_tokens s = [s]"
        by (simp add: parsed_tokens_def split_on_no_sep [OF False])
      have pos: "snd (off, int (length s)) > 0" using ne by simp
      show ?thesis
        by (simp add: triggers_loop_step [OF t pos] b pt triggers_loop_end split: option.splits)
    qed
  next
    case True
    then obtain xs ys where s: "s = xs @ TAB # ys" and nx: "TAB \<notin> set xs"
      by (meson split_list_first)
    have d: "drop off buf = xs @ TAB # ys" using "1.prems" s by simp
    have t: "strseg_tok_next buf TAB (off, int (length s)) =
             Some ((off + length xs + 1, int (length s) - int (length xs) - 1), (off, int (length xs)))"
      by (rule tok_next_at [OF nx _ d]) (simp add: s)
    have l: "int (length s) - int (length xs) - 1 = int (length ys)" by (simp add: s)
    have b: "seg_bytes buf (off, int (length xs)) = xs"
      using d by (rule seg_bytes_prefix)
    have d': "drop (off + length xs + 1) buf = ys"
    proof -
      have "drop (length xs + 1) (drop off buf) = ys" by (simp only: d) simp
      then show ?thesis by (simp add: add.commute)
    qed
    have shorter: "length ys < length s" by (simp add: s)
    note ih = "1.IH" [rule_format, OF shorter d']
    have sp: "split_on TAB s = xs # split_on TAB ys"
      by (simp add: s split_on_sep [OF nx])
    show ?thesis
    proof (cases "xs = []")
      case True
      then show ?thesis
        using triggers_loop_stop [OF t, of cfg acc] by (simp add: parsed_tokens_def sp)
    next
      case ne: False
      then have pt: "parsed_tokens s = xs # parsed_tokens ys"
        by (simp add: parsed_tokens_def sp)
      have pos: "snd (off, int (length xs)) > 0" using ne by simp
      show ?thesis
        using ih by (simp add: triggers_loop_step [OF t pos] b pt l split: option.splits)
    qed
  qed
qed

lemma triggers_fold_bad:
  "t \<in> set ts \<Longrightarrow> t \<noteq> ''always'' \<Longrightarrow> sig_num_by_name cfg t \<le> 0 \<Longrightarrow> triggers_fold cfg ts acc = None"
proof (induction ts arbitrary: acc)
  case Nil
  then show ?case by simp
next
  case (Cons u ts)
  show ?case
  proof (cases "u = t")
    case True
    then have "trigger_step cfg acc u = None"
      using Cons.prems by (simp add: trigger_step_def strseg_cmp_eq split: prod.splits)
    then show ?thesis by simp
  next
    case False
    then have "t \<in> set ts" using Cons.prems by simp
    then show ?thesis
      using Cons.IH Cons.prems by (simp split: option.splits)
  qed
qed

lemma triggers_fold_good:
  "\<forall>t\<in>set ts. t = ''always'' \<or> (0 < sig_num_by_name cfg t \<and> sig_valid cfg (sig_num_by_name cfg t)) \<Longrightarrow>
   triggers_fold cfg ts (a, sg, en) =
     Some (a \<or> ''always'' \<in> set ts, sg \<union> sig_num_by_name cfg ` (set ts - {''always''}),
           en \<or> (\<exists>t\<in>set ts. t \<noteq> ''always''))"
proof (induction ts arbitrary: a sg en)
  case Nil
  then show ?case by simp
next
  case (Cons u ts)
  have ih: "triggers_fold cfg ts (a', sg', en') =
     Some (a' \<or> ''always'' \<in> set ts, sg' \<union> sig_num_by_name cfg ` (set ts - {''always''}),
           en' \<or> (\<exists>t\<in>set ts. t \<noteq> ''always''))" for a' sg' en'
    using Cons.IH Cons.prems by simp
  show ?case
  proof (cases "u = ''always''")
    case True
    then have "trigger_step cfg (a, sg, en) u = Some (True, sg, en)"
      by (simp add: trigger_step_def strseg_cmp_eq)
    then show ?thesis using True by (auto simp: ih)
  next
    case False
    then have n: "0 < sig_num_by_name cfg u" "sig_valid cfg (sig_num_by_name cfg u)"
      using Cons.prems by auto
    then have "trigger_step cfg (a, sg, en) u = Some (a, insert (sig_num_by_name cfg u) sg, True)"
      using False by (simp add: trigger_step_def strseg_cmp_eq sigaddset_def)
    then show ?thesis using False by (auto simp: ih)
  qed
qed

lemma svc_at_set_sigwake:
  "svc_at (svc_set_sigwake w p b) q =
     (if q = p then (svc_at w p)\<lparr>sigwake := b, sigwake_linked := b\<rparr> else svc_at w q)"
  by (auto simp: svc_set_sigwake_def Let_def)

lemma set_sigwake_fields [simp]:
  "svc_active_list (svc_set_sigwake w p b) = svc_active_list w"
  "svc_by_pid_index (svc_set_sigwake w p b) = svc_by_pid_index w"
  "svc_by_name_index (svc_set_sigwake w p b) = svc_by_name_index w"
  "wake_now (svc_set_sigwake w p b) = wake_now w"
  "wake_next (svc_set_sigwake w p b) = wake_next w"
  "notified (svc_set_sigwake w p b) = notified w"
  "sig_events (svc_set_sigwake w p b) = sig_events w"
  "launches (svc_set_sigwake w p b) = launches w"
  "forks (svc_set_sigwake w p b) = forks w"
  "launch_envs (svc_set_sigwake w p b) = launch_envs w"
  "svc_list (svc_set_sigwake w p b) = svc_list w"
  "svc_list_count (svc_set_sigwake w p b) = svc_list_count w"
  by (simp_all add: svc_set_sigwake_def Let_def)

lemma handle_start_keeps:
  "vars (svc_at (snd (svc_handle_start w p t)) p) = vars (svc_at w p)"
  "auto_restart (svc_at (snd (svc_handle_start w p t)) p) = auto_restart (svc_at w p)"
  "autostart_signals (svc_at (snd (svc_handle_start w p t)) p) = autostart_signals (svc_at w p)"
  "sigwake (svc_at (snd (svc_handle_start w p t)) p) = sigwake (svc_at w p)"
  "name (svc_at (snd (svc_handle_start w p t)) p) = name (svc_at w p)"
  "restart_interval (svc_at (snd (svc_handle_start w p t)) p) = restart_interval (svc_at w p)"
  by (simp_all add: svc_handle_start_def Let_def svc_at_set_active svc_at_change_pid)

lemma set_triggers_parse_fail:
  "triggers_fold cfg (parsed_tokens tr) (False, {}, False) = None \<Longrightarrow>
   svc_set_triggers cfg ok w p tr = (False, w)"
  using triggers_loop_tokens [of 0 tr tr cfg "(False, {}, False)"]
  by (simp add: svc_set_triggers_def)

lemma set_triggers_store_fail:
  "\<not> fst (svc_set_var cfg ok (svc_at w p) ''triggers'' (if tr = [] then None else Some tr)) \<Longrightarrow>
   svc_set_triggers cfg ok w p tr = (False, w)"
proof -
  assume f: "\<not> fst (svc_set_var cfg ok (svc_at w p) ''triggers'' (if tr = [] then None else Some tr))"
  obtain svc1 where
    v: "svc_set_var cfg ok (svc_at w p) ''triggers'' (if tr = [] then None else Some tr) = (False, svc1)"
    using f by (cases "svc_set_var cfg ok (svc_at w p) ''triggers'' (if tr = [] then None else Some tr)") simp
  show ?thesis
  proof (cases "triggers_loop cfg tr (0, int (length tr)) (False, {}, False)")
    case None
    then show ?thesis by (simp add: svc_set_triggers_def)
  next
    case (Some r)
    obtain a sg en where r: "r = (a, sg, en)" by (cases r)
    show ?thesis using Some r v by (simp add: svc_set_triggers_def)
  qed
qed

lemma set_triggers_success:
  assumes parse: "triggers_fold cfg (parsed_tokens tr) (False, {}, False) = Some (a, sg, en)"
    and store: "svc_set_var cfg ok (svc_at w p) ''triggers'' (if tr = [] then None else Some tr) = (True, svc1)"
  shows "fst (svc_set_triggers cfg ok w p tr)"
    and "vars (svc_at (snd (svc_set_triggers cfg ok w p tr)) p) = vars svc1"
    and "auto_restart (svc_at (snd (svc_set_triggers cfg ok w p tr)) p) = a"
    and "autostart_signals (svc_at (snd (svc_set_triggers cfg ok w p tr)) p) = sg"
    and "sigwake (svc_at (snd (svc_set_triggers cfg ok w p tr)) p) = en"
proof -
  have l: "triggers_loop cfg tr (0, int (length tr)) (False, {}, False) = Some (a, sg, en)"
    using triggers_loop_tokens [of 0 tr tr cfg "(False, {}, False)"] parse by simp
  define w4 where "w4 = svc_set_sigwake
      (svc_upd p (\<lambda>s. s\<lparr>autostart_signals := sg\<rparr>)
        (svc_upd p (\<lambda>s. s\<lparr>auto_restart := a\<rparr>) (svc_upd p (\<lambda>s. svc1) w))) p en"
  have r: "svc_set_triggers cfg ok w p tr =
        (if auto_restart (svc_at w4 p) \<or> svc_check_sigwake cfg w4 p
         then (True, snd (svc_handle_start w4 p (wake_now w4))) else (True, w4))"
    using store by (simp add: svc_set_triggers_def l Let_def w4_def)
  have rec: "svc_at w4 p = svc1\<lparr>auto_restart := a, autostart_signals := sg, sigwake := en, sigwake_linked := en\<rparr>"
    by (simp add: w4_def svc_at_set_sigwake)
  show "fst (svc_set_triggers cfg ok w p tr)" by (simp add: r)
  show "vars (svc_at (snd (svc_set_triggers cfg ok w p tr)) p) = vars svc1"
    by (simp add: r handle_start_keeps rec)
  show "auto_restart (svc_at (snd (svc_set_triggers cfg ok w p tr)) p) = a"
    by (simp add: r handle_start_keeps rec)
  show "autostart_signals (svc_at (snd (svc_set_triggers cfg ok w p tr)) p) = sg"
    by (simp add: r handle_start_keeps rec)
  show "sigwake (svc_at (snd (svc_set_triggers cfg ok w p tr)) p) = en"
    by (simp add: r handle_start_keeps rec)
qed

lemma set_triggers_atomic:
  assumes f: "\<not> fst (svc_set_triggers cfg ok w p tr)"
  shows "snd (svc_set_triggers cfg ok w p tr) = w"
proof (cases "triggers_loop cfg tr (0, int (length tr)) (False, {}, False)")
  case None
  then show ?thesis by (simp add: svc_set_triggers_def)
next
  case (Some r)
  obtain a sg en where r: "r = (a, sg, en)" by (cases r)
  obtain okv svc1 where
    v: "svc_set_var cfg ok (svc_at w p) ''triggers'' (if tr = [] then None else Some tr) = (okv, svc1)"
    by (cases "svc_set_var cfg ok (svc_at w p) ''triggers'' (if tr = [] then None else Some tr)")
  show ?thesis
    using f Some r v by (cases okv) (simp_all add: svc_set_triggers_def Let_def split: if_splits)
qed

lemma set_var_atomic:
  "\<not> fst (svc_set_var cfg ok svc k nv) \<Longrightarrow> snd (svc_set_var cfg ok svc k nv) = svc"
  by (cases "find_var (vars svc) k (0, int (length (vars svc)))")
     (simp add: svc_set_var_def Let_def split: if_splits)

lemma set_fds_atomic:
  assumes f: "\<not> fst (svc_set_fds cfg ok svc new_fds)"
  shows "snd (svc_set_fds cfg ok svc new_fds) = svc"
proof (cases "strseg_cmp new_fds fds_default = 0")
  case True
  then show ?thesis using f by (simp add: svc_set_fds_def split: prod.splits)
next
  case False
  obtain okv svc1 where v: "svc_set_var cfg ok svc ''fds'' (Some new_fds) = (okv, svc1)"
    by (cases "svc_set_var cfg ok svc ''fds'' (Some new_fds)")
  show ?thesis using f False v
    by (cases okv) (simp_all add: svc_set_fds_def split: prod.splits)
qed

lemma set_restart_interval_atomic:
  "\<not> fst (svc_set_restart_interval svc i) \<Longrightarrow> snd (svc_set_restart_interval svc i) = svc"
  by (cases "signed_drop_bit 32 i <s 1") (simp_all add: svc_set_restart_interval_def)

lemma set_var_pool_full:
  assumes pool: "svc_pool cfg"
    and grow: "0 < set_var_sizediff (fst (find_var (vars svc) k (0, int (length (vars svc))))) k nv"
    and full: "svc_pool_size_each cfg - (name_buf_offset cfg + int (length (name svc)) + 1)
     < int (length (vars svc))
       + set_var_sizediff (fst (find_var (vars svc) k (0, int (length (vars svc))))) k nv"
  shows "svc_set_var cfg ok svc k nv = (False, svc)"
proof -
  obtain fnd tail where fv: "find_var (vars svc) k (0, int (length (vars svc))) = (fnd, tail)"
    by (cases "find_var (vars svc) k (0, int (length (vars svc)))")
  define sd where "sd = set_var_sizediff fnd k nv"
  define cap where
    "cap = svc_pool_size_each cfg - (name_buf_offset cfg + int (length (name svc)) + 1)"
  have c: "0 < sd \<and> svc_pool cfg \<and> cap < int (length (vars svc)) + sd"
    using pool grow full unfolding fv sd_def cap_def by (simp only: fst_conv simp_thms)
  have "svc_set_var cfg ok svc k nv =
          (if 0 < sd \<and> svc_pool cfg \<and> cap < int (length (vars svc)) + sd then (False, svc)
           else if 0 < sd \<and> \<not> svc_pool cfg \<and> \<not> ok then (False, svc)
           else (True, svc\<lparr>vars := set_var_write (vars svc) fnd tail k nv sd\<rparr>))"
    unfolding svc_set_var_def Let_def fv prod.case sd_def cap_def ..
  then show ?thesis by (simp only: c if_True simp_thms)
qed

text \<open>
  Claim C4, as amended. A setter that fails leaves everything as it was:
  \<open>svc_set_triggers\<close> returns false, the whole state unchanged, when one of the tokens
  it parses (those before the first empty token) is neither \<open>always\<close> nor a name that
  \<open>sig_num_by_name\<close> knows; \<open>svc_set_restart_interval\<close> returns false, the record
  unchanged, when the whole-seconds part of the interval (the upper 32 bits) is less
  than 1; \<open>svc_set_var\<close> returns false, the record unchanged, when the record is
  pool-backed and the buffer would grow beyond the capacity of its slot; and whenever
  \<open>svc_set_triggers\<close>, \<open>svc_set_restart_interval\<close>, \<open>svc_set_var\<close>, \<open>svc_set_tags\<close>,
  \<open>svc_set_argv\<close> or \<open>svc_set_fds\<close> returns false, for whatever reason, the record (for
  \<open>svc_set_triggers\<close> the whole state, with the signal-wake list) is exactly as before.
\<close>

theorem setter_failure_atomic:
  "((\<exists>t\<in>set (parsed_tokens tr). t \<noteq> ''always'' \<and> sig_num_by_name cfg t \<le> 0) \<longrightarrow>
      svc_set_triggers cfg ok w p tr = (False, w))
   \<and> (signed_drop_bit 32 interval <s 1 \<longrightarrow> svc_set_restart_interval svc interval = (False, svc))
   \<and> (svc_pool cfg
       \<and> 0 < set_var_sizediff (fst (find_var (vars svc) k (0, int (length (vars svc))))) k nv
       \<and> svc_pool_size_each cfg - (name_buf_offset cfg + int (length (name svc)) + 1)
           < int (length (vars svc))
             + set_var_sizediff (fst (find_var (vars svc) k (0, int (length (vars svc))))) k nv
       \<longrightarrow> svc_set_var cfg ok svc k nv = (False, svc))
   \<and> (\<not> fst (svc_set_triggers cfg ok w p tr) \<longrightarrow> snd (svc_set_triggers cfg ok w p tr) = w)
   \<and> (\<not> fst (svc_set_restart_interval svc interval) \<longrightarrow>
        snd (svc_set_restart_interval svc interval) = svc)
   \<and> (\<not> fst (svc_set_var cfg ok svc k nv) \<longrightarrow> snd (svc_set_var cfg ok svc k nv) = svc)
   \<and> (\<not> fst (svc_set_tags cfg ok svc v) \<longrightarrow> snd (svc_set_tags cfg ok svc v) = svc)
   \<and> (\<not> fst (svc_set_argv cfg ok svc v) \<longrightarrow> snd (svc_set_argv cfg ok svc v) = svc)
   \<and> (\<not> fst (svc_set_fds cfg ok svc v) \<longrightarrow> snd (svc_set_fds cfg ok svc v) = svc)"
proof (intro conjI impI)
  assume "\<exists>t\<in>set (parsed_tokens tr). t \<noteq> ''always'' \<and> sig_num_by_name cfg t \<le> 0"
  then obtain t where "t \<in> set (parsed_tokens tr)" "t \<noteq> ''always''" "sig_num_by_name cfg t \<le> 0"
    by blast
  then have "triggers_fold cfg (parsed_tokens tr) (False, {}, False) = None"
    by (rule triggers_fold_bad)
  then show "svc_set_triggers cfg ok w p tr = (False, w)"
    by (rule set_triggers_parse_fail)
next
  assume "signed_drop_bit 32 interval <s 1"
  then show "svc_set_restart_interval svc interval = (False, svc)"
    by (simp add: svc_set_restart_interval_def)
next
  assume "svc_pool cfg
       \<and> 0 < set_var_sizediff (fst (find_var (vars svc) k (0, int (length (vars svc))))) k nv
       \<and> svc_pool_size_each cfg - (name_buf_offset cfg + int (length (name svc)) + 1)
           < int (length (vars svc))
             + set_var_sizediff (fst (find_var (vars svc) k (0, int (length (vars svc))))) k nv"
  then show "svc_set_var cfg ok svc k nv = (False, svc)"
    using set_var_pool_full by blast
next
  assume "\<not> fst (svc_set_triggers cfg ok w p tr)"
  then show "snd (svc_set_triggers cfg ok w p tr) = w" by (rule set_triggers_atomic)
next
  assume "\<not> fst (svc_set_restart_interval svc interval)"
  then show "snd (svc_set_restart_interval svc interval) = svc" by (rule set_restart_interval_atomic)
next
  assume "\<not> fst (svc_set_var cfg ok svc k nv)"
  then show "snd (svc_set_var cfg ok svc k nv) = svc" by (rule set_var_atomic)
next
  assume "\<not> fst (svc_set_tags cfg ok svc v)"
  then show "snd (svc_set_tags cfg ok svc v) = svc"
    unfolding svc_set_tags_def by (rule set_var_atomic)
next
  assume "\<not> fst (svc_set_argv cfg ok svc v)"
  then show "snd (svc_set_argv cfg ok svc v) = svc"
    unfolding svc_set_argv_def by (rule set_var_atomic)
next
  assume "\<not> fst (svc_set_fds cfg ok svc v)"
  then show "snd (svc_set_fds cfg ok svc v) = svc" by (rule set_fds_atomic)
qed


lemma world1_record: "svc_at world1 1 = new_service ''web''"
  by (simp add: svc_at_def world1_def)

lemma fresh_record_packed: "vars (new_service nm) = pack_vars []"
  by (simp add: new_service_def)

lemma fresh_record_name: "name (new_service nm) = nm"
  by (simp add: new_service_def)

lemma long_value_length: "length long_value = 40"
  by (simp add: long_value_def)

lemma find_var_empty: "find_var [] k (0, 0) = (None, (0, 0))"
  using find_var_packed_absent [of "[]" k] by simp

lemma pool_full_long:
  "length k = 3 \<or> length k = 4 \<Longrightarrow>
   svc_set_var cfg_pool True (new_service ''web'') k (Some long_value) = (False, new_service ''web'')"
proof (rule set_var_pool_full)
  assume k: "length k = 3 \<or> length k = 4"
  note f = find_var_empty new_service_def
  show "svc_pool cfg_pool" by (simp add: cfg_pool_def)
  show "0 < set_var_sizediff (fst (find_var (vars (new_service ''web'')) k
              (0, int (length (vars (new_service ''web'')))))) k (Some long_value)"
    by (simp add: f set_var_sizediff_def)
  show "svc_pool_size_each cfg_pool - (name_buf_offset cfg_pool + int (length (name (new_service ''web''))) + 1)
     < int (length (vars (new_service ''web'')))
       + set_var_sizediff (fst (find_var (vars (new_service ''web'')) k
              (0, int (length (vars (new_service ''web'')))))) k (Some long_value)"
    using k by (auto simp: f set_var_sizediff_def cfg_pool_def cfg0_def new_service_def long_value_length)
qed

text \<open>
  The claim as stated fails for a token after an empty one: in the list
  \<open>TAB bogus\<close> the token \<open>bogus\<close> is neither \<open>always\<close> nor a known signal name, and
  \<open>svc_set_triggers\<close> succeeds and stores the list.
\<close>

theorem setter_failure_atomic_counterexample:
  "''bogus'' \<in> set (split_on TAB (TAB # ''bogus'')) \<and> ''bogus'' \<noteq> ''always''
   \<and> sig_num_by_name cfg0 ''bogus'' = 0
   \<and> vars (svc_at world1 1) = []
   \<and> fst (svc_set_triggers cfg0 True world1 1 (TAB # ''bogus''))
   \<and> vars (svc_at (snd (svc_set_triggers cfg0 True world1 1 (TAB # ''bogus''))) 1)
       = ''triggers='' @ TAB # ''bogus'' @ [NUL]"
proof -
  have parse: "triggers_fold cfg0 (parsed_tokens (TAB # ''bogus'')) (False, {}, False)
                 = Some (False, {}, False)"
    by (simp add: parsed_tokens_def)
  have store: "svc_set_var cfg0 True (svc_at world1 1) ''triggers''
                 (if TAB # ''bogus'' = [] then None else Some (TAB # ''bogus''))
               = (True, (new_service ''web'')\<lparr>vars := pack_vars ([] @ [(''triggers'', TAB # ''bogus'')])\<rparr>)"
    unfolding world1_record
    using svc_set_var_absent_Some [of "[]" "new_service ''web''" "''triggers''" cfg0 True "TAB # ''bogus''"]
    by (simp add: fresh_record_packed cfg0_def)
  have a: "fst (svc_set_triggers cfg0 True world1 1 (TAB # ''bogus''))"
    using set_triggers_success(1) [OF parse store] .
  have b: "vars (svc_at (snd (svc_set_triggers cfg0 True world1 1 (TAB # ''bogus''))) 1)
       = ''triggers='' @ TAB # ''bogus'' @ [NUL]"
    using set_triggers_success(2) [OF parse store] by (simp add: pack_var_def)
  have c: "''bogus'' \<in> set (split_on TAB (TAB # ''bogus''))" by (simp add: TAB_def)
  have d: "sig_num_by_name cfg0 ''bogus'' = 0" by (simp add: cfg0_def)
  have e: "vars (svc_at world1 1) = []" unfolding world1_record by (simp add: new_service_def)
  show ?thesis using a b c d e by simp
qed

text \<open>
  The theorem at work on the record \<open>web\<close> in a pool: the trigger \<open>bogus\<close>, an interval
  of less than a second, and values of 40 bytes for a slot with room for 32.
\<close>

theorem setter_failure_atomic_witness:
  "svc_set_triggers cfg_pool True world1 1 ''bogus'' = (False, world1)
   \<and> svc_set_restart_interval (new_service ''web'') 0xFFFFFFFF = (False, new_service ''web'')
   \<and> svc_set_var cfg_pool True (new_service ''web'') ''tags'' (Some long_value)
       = (False, new_service ''web'')
   \<and> snd (svc_set_tags cfg_pool True (new_service ''web'') long_value) = new_service ''web''
   \<and> snd (svc_set_argv cfg_pool True (new_service ''web'') long_value) = new_service ''web''
   \<and> snd (svc_set_fds cfg_pool True (new_service ''web'') long_value) = new_service ''web''"
proof -
  let ?svc = "new_service ''web''"
  have a1: "\<exists>t\<in>set (parsed_tokens ''bogus''). t \<noteq> ''always'' \<and> sig_num_by_name cfg_pool t \<le> 0"
    by (simp add: parsed_tokens_def TAB_def cfg_pool_def cfg0_def)
  have a2: "signed_drop_bit 32 (0xFFFFFFFF :: int64) <s 1"
    by (simp add: word_sless_alt)
  note f = find_var_empty
  have a3: "svc_pool cfg_pool
       \<and> 0 < set_var_sizediff (fst (find_var (vars ?svc) ''tags'' (0, int (length (vars ?svc)))))
               ''tags'' (Some long_value)
       \<and> svc_pool_size_each cfg_pool - (name_buf_offset cfg_pool + int (length (name ?svc)) + 1)
           < int (length (vars ?svc))
             + set_var_sizediff (fst (find_var (vars ?svc) ''tags'' (0, int (length (vars ?svc)))))
                 ''tags'' (Some long_value)"
    by (simp add: f set_var_sizediff_def cfg_pool_def cfg0_def new_service_def long_value_length)
  have lv: "\<not> int (length long_value) \<le> 0" by (simp add: long_value_length)
  have a4: "\<not> fst (svc_set_tags cfg_pool True ?svc long_value)"
    unfolding svc_set_tags_def using pool_full_long [of "''tags''"] lv by simp
  have a5: "\<not> fst (svc_set_argv cfg_pool True ?svc long_value)"
    unfolding svc_set_argv_def using pool_full_long [of "''args''"] lv by simp
  have nd: "strseg_cmp long_value fds_default \<noteq> 0"
    by (simp add: strseg_cmp_eq long_value_def fds_default_def)
  have a6: "\<not> fst (svc_set_fds cfg_pool True ?svc long_value)"
    using pool_full_long [of "''fds''"] nd by (simp add: svc_set_fds_def)
  show ?thesis
    using setter_failure_atomic [where tr = "''bogus''" and cfg = cfg_pool and ok = True
        and w = world1 and p = 1 and interval = "0xFFFFFFFF" and svc = "new_service ''web''"
        and k = "''tags''" and nv = "Some long_value" and v = long_value]
      a1 a2 a3 a4 a5 a6
    by blast
qed

subsection \<open>The file descriptors of a service\<close>

lemma valid_key_fds: "valid_key ''fds''"
  by (simp add: valid_key_def NUL_def)

text \<open>A setter given a key and a value without NUL keeps the buffer well formed.\<close>

lemma set_var_keeps_valid:
  assumes wf: "valid_vars kvs" and buf: "vars svc = pack_vars kvs"
    and vk: "valid_key k" and vv: "case nv of None \<Rightarrow> True | Some v \<Rightarrow> valid_value v"
  shows "\<exists>kvs'. valid_vars kvs' \<and> vars (snd (svc_set_var cfg ok svc k nv)) = pack_vars kvs'"
proof (cases nv)
  case None
  have "vars (snd (svc_set_var cfg ok svc k None)) = pack_vars (filter (\<lambda>kv. fst kv \<noteq> k) kvs)"
    by (simp add: svc_set_var_None_packed [OF wf buf])
  then show ?thesis using valid_vars_filter [OF wf] None by blast
next
  case (Some v)
  then have v: "valid_value v" using vv by simp
  show ?thesis
  proof (cases "k \<in> fst ` set kvs")
    case False
    have "vars (snd (svc_set_var cfg ok svc k (Some v))) = pack_vars kvs
          \<or> vars (snd (svc_set_var cfg ok svc k (Some v))) = pack_vars (kvs @ [(k, v)])"
      using svc_set_var_absent_Some [OF wf buf False, of cfg ok v] buf by (simp split: if_splits)
    then show ?thesis
      using wf valid_vars_snoc [OF wf False vk v] Some by blast
  next
    case True
    from keys_split [OF True] obtain kvs1 old kvs2 where sp: "kvs = kvs1 @ (k, old) # kvs2"
      by (elim exE)
    have wf0: "valid_vars (kvs1 @ (k, old) # kvs2)" using wf sp by simp
    have buf0: "vars svc = pack_vars (kvs1 @ (k, old) # kvs2)" using buf sp by simp
    have "vars (snd (svc_set_var cfg ok svc k (Some v))) = pack_vars kvs
          \<or> vars (snd (svc_set_var cfg ok svc k (Some v))) = pack_vars (kvs1 @ (k, v) # kvs2)"
      using svc_set_var_present_Some [OF wf0 buf0, of cfg ok v] buf by (simp split: if_splits)
    then show ?thesis
      using wf valid_vars_replace [OF wf0 v] Some by blast
  qed
qed

lemma set_fds_vars:
  "vars (snd (svc_set_fds cfg ok svc new_fds)) =
     vars (snd (svc_set_var cfg ok svc ''fds'' (if new_fds = fds_default then None else Some new_fds)))"
proof (cases "new_fds = fds_default")
  case True
  then show ?thesis by (simp add: svc_set_fds_def strseg_cmp_eq split: prod.splits)
next
  case False
  obtain okv svc1 where v: "svc_set_var cfg ok svc ''fds'' (Some new_fds) = (okv, svc1)"
    by (cases "svc_set_var cfg ok svc ''fds'' (Some new_fds)")
  have u: "\<not> okv \<Longrightarrow> svc1 = svc"
    using set_var_atomic [of cfg ok svc "''fds''" "Some new_fds"] v by simp
  show ?thesis
    using False v u by (cases okv) (simp_all add: svc_set_fds_def strseg_cmp_eq split: prod.splits)
qed

lemma set_fds_keeps_valid:
  assumes wf: "valid_vars kvs" and buf: "vars svc = pack_vars kvs" and vv: "valid_value new_fds"
  shows "\<exists>kvs'. valid_vars kvs' \<and> vars (snd (svc_set_fds cfg ok svc new_fds)) = pack_vars kvs'"
  unfolding set_fds_vars
  by (rule set_var_keeps_valid [OF wf buf valid_key_fds]) (simp add: vv)

text \<open>Unsetting the key of the first entry removes that entry, whatever follows it.\<close>

lemma set_var_delete_first:
  assumes vk: "valid_key k" and vv: "valid_value v" and buf: "vars svc = pack_var (k, v) @ rest"
  shows "svc_set_var cfg ok svc k None = (True, svc\<lparr>vars := rest\<rparr>)"
proof -
  have d: "drop 0 (vars svc) = pack_var (k, v) @ rest" using buf by simp
  have l: "int (length (vars svc)) = int (length (pack_var (k, v))) + int (length rest)"
    using buf by simp
  have f: "find_var (vars svc) k (0, int (length (vars svc))) =
             (Some (length k + 1, int (length v)), (length (pack_var (k, v)), int (length rest)))"
    unfolding l using find_var_step [OF vk vv d, of k "length rest"] by simp
  have w: "set_var_write (vars svc) (Some (length k + 1, int (length v)))
             (length (pack_var (k, v)), int (length rest)) k None
             (- (int (length v) + 1 + int (length k) + 1)) = rest"
    using write_delete [of "[]" k v rest] by (simp add: buf pack_var_def)
  show ?thesis
    using w by (simp add: svc_set_var_def f Let_def set_var_sizediff_def)
qed

text \<open>
  Claim C6, as amended. On a record whose buffer is well formed, \<open>set_fds\<close> with
  the literal \<open>null\\tnull\\tnull\<close> succeeds, leaves the buffer without its \<open>fds\<close>
  entry (so \<open>fds\<close> is absent afterwards, and the buffer is shorter by the whole entry
  when there was one) and leaves the three \<open>uses_control\<close> flags false. After any
  successful \<open>set_fds\<close> that leaves the buffer of a pool-backed record inside
  \<open>name_buf\<close>, each flag is true exactly when its literal token is one of the tokens
  of the new tab-separated list. And the buffer stays well formed under \<open>set_fds\<close>
  with a value that holds no NUL byte.
\<close>

theorem set_fds_default_and_flags:
  "(valid_vars kvs \<and> vars svc = pack_vars kvs \<and> vars_in_name_buf cfg svc \<longrightarrow>
      svc_set_fds cfg ok svc fds_default =
        (True, svc\<lparr>vars := pack_vars (filter (\<lambda>kv. fst kv \<noteq> ''fds'') kvs),
                   uses_control_event := False, uses_control_cmd := False,
                   uses_control_socket := False\<rparr>)
      \<and> svc_get_var (snd (svc_set_fds cfg ok svc fds_default)) ''fds'' = None
      \<and> (\<forall>old. (''fds'', old) \<in> set kvs \<longrightarrow>
            int (length (vars (snd (svc_set_fds cfg ok svc fds_default)))) =
            int (length (vars svc)) - int (length (pack_var (''fds'', old)))))
   \<and> (fst (svc_set_fds cfg ok svc new_fds)
        \<and> vars_in_name_buf cfg (snd (svc_set_fds cfg ok svc new_fds)) \<longrightarrow>
        uses_control_event (snd (svc_set_fds cfg ok svc new_fds)) = (''control.event'' \<in> set (split_on TAB new_fds))
        \<and> uses_control_cmd (snd (svc_set_fds cfg ok svc new_fds)) = (''control.cmd'' \<in> set (split_on TAB new_fds))
        \<and> uses_control_socket (snd (svc_set_fds cfg ok svc new_fds)) = (''control.socket'' \<in> set (split_on TAB new_fds)))
   \<and> (valid_vars kvs \<and> vars svc = pack_vars kvs \<and> valid_value new_fds \<longrightarrow>
        (\<exists>kvs'. valid_vars kvs' \<and> vars (snd (svc_set_fds cfg ok svc new_fds)) = pack_vars kvs'))"
proof (intro conjI impI allI)
  assume a: "valid_vars kvs \<and> vars svc = pack_vars kvs \<and> vars_in_name_buf cfg svc"
  then have wf: "valid_vars kvs" and buf: "vars svc = pack_vars kvs" by simp_all
  let ?kvs' = "filter (\<lambda>kv. fst kv \<noteq> ''fds'') kvs"
  show d: "svc_set_fds cfg ok svc fds_default =
        (True, svc\<lparr>vars := pack_vars ?kvs',
                   uses_control_event := False, uses_control_cmd := False,
                   uses_control_socket := False\<rparr>)"
    by (rule set_fds_default [OF wf buf])
  have ab: "''fds'' \<notin> fst ` set ?kvs'" by auto
  show "svc_get_var (snd (svc_set_fds cfg ok svc fds_default)) ''fds'' = None"
    unfolding d by (rule svc_get_var_absent [OF valid_vars_filter [OF wf] _ ab]) simp
  fix old assume "(''fds'', old) \<in> set kvs"
  then show "int (length (vars (snd (svc_set_fds cfg ok svc fds_default)))) =
            int (length (vars svc)) - int (length (pack_var (''fds'', old)))"
    unfolding d using length_pack_vars_filter [OF wf] by (simp add: buf)
next
  assume "fst (svc_set_fds cfg ok svc new_fds)
        \<and> vars_in_name_buf cfg (snd (svc_set_fds cfg ok svc new_fds))"
  then have "fst (svc_set_fds cfg ok svc new_fds)" by simp
  then show "uses_control_event (snd (svc_set_fds cfg ok svc new_fds)) = (''control.event'' \<in> set (split_on TAB new_fds))"
    "uses_control_cmd (snd (svc_set_fds cfg ok svc new_fds)) = (''control.cmd'' \<in> set (split_on TAB new_fds))"
    "uses_control_socket (snd (svc_set_fds cfg ok svc new_fds)) = (''control.socket'' \<in> set (split_on TAB new_fds))"
    using set_fds_flags by blast+
next
  assume "valid_vars kvs \<and> vars svc = pack_vars kvs \<and> valid_value new_fds"
  then show "\<exists>kvs'. valid_vars kvs' \<and> vars (snd (svc_set_fds cfg ok svc new_fds)) = pack_vars kvs'"
    using set_fds_keeps_valid by blast
qed

text \<open>
  The claim as stated (for every record) fails on a buffer that is not well formed,
  and the setters can leave one: they store the bytes of a value as they are. On a
  fresh record \<open>set_fds\<close> with the value \<open>a NUL fds=b\<close> succeeds and leaves the
  buffer \<open>fds=a NUL fds=b NUL\<close>; \<open>set_fds\<close> with the default then removes the first
  entry only, and \<open>fds\<close> is still there with the value \<open>b\<close>.
\<close>

theorem set_fds_default_and_flags_counterexample:
  "svc_set_fds cfg0 True (new_service ''web'') (''a'' @ NUL # ''fds=b'') = (True, svc_fds_twice)
   \<and> svc_set_fds cfg0 True svc_fds_twice fds_default
        = (True, svc_fds_twice\<lparr>vars := ''fds=b'' @ [NUL]\<rparr>)
   \<and> svc_get_var (snd (svc_set_fds cfg0 True svc_fds_twice fds_default)) ''fds'' = Some (4, 1)
   \<and> svc_get_fds (snd (svc_set_fds cfg0 True svc_fds_twice fds_default)) = ''b''"
proof -
  let ?bad = "''a'' @ NUL # ''fds=b''"
  have v0: "vars (new_service ''web'') = pack_vars []" by (simp add: new_service_def)
  have s1: "svc_set_var cfg0 True (new_service ''web'') ''fds'' (Some ?bad) = (True, svc_fds_twice)"
    using svc_set_var_absent_Some [OF valid_vars_Nil v0, of "''fds''" cfg0 True ?bad]
    by (simp add: cfg0_def pack_var_def svc_fds_twice_def)
  have nd: "strseg_cmp ?bad fds_default \<noteq> 0"
    by (simp add: strseg_cmp_eq fds_default_def)
  have nt: "TAB \<notin> set ?bad" by (simp add: TAB_def NUL_def)
  have fl: "fds_loop ?bad (0, int (length ?bad)) (False, False, False) = (False, False, False)"
    using fds_loop_tokens [of 0 ?bad ?bad False False False] split_on_no_sep [OF nt]
    by (simp add: NUL_def)
  have same: "svc_fds_twice\<lparr>uses_control_event := False, uses_control_cmd := False,
                uses_control_socket := False\<rparr> = svc_fds_twice"
    by (simp add: svc_fds_twice_def new_service_def)
  have A: "svc_set_fds cfg0 True (new_service ''web'') ?bad = (True, svc_fds_twice)"
    using nd s1 fl same by (simp add: svc_set_fds_def)
  have vk: "valid_key ''fds''" by (rule valid_key_fds)
  have va: "valid_value ''a''" by (simp add: valid_value_def NUL_def)
  have b2: "vars svc_fds_twice = pack_var (''fds'', ''a'') @ (''fds=b'' @ [NUL])"
    by (simp add: svc_fds_twice_def pack_var_def)
  have s2: "svc_set_var cfg0 True svc_fds_twice ''fds'' None
              = (True, svc_fds_twice\<lparr>vars := ''fds=b'' @ [NUL]\<rparr>)"
    by (rule set_var_delete_first [OF vk va b2])
  have fd: "fds_loop fds_default (0, int (length fds_default)) (False, False, False)
              = (False, False, False)"
    using fds_loop_tokens [of 0 fds_default fds_default False False False]
    by (simp add: fds_default_tokens)
  have same2: "svc_fds_twice\<lparr>vars := ''fds=b'' @ [NUL], uses_control_event := False,
                uses_control_cmd := False, uses_control_socket := False\<rparr>
               = svc_fds_twice\<lparr>vars := ''fds=b'' @ [NUL]\<rparr>"
    by (simp add: svc_fds_twice_def new_service_def)
  have B: "svc_set_fds cfg0 True svc_fds_twice fds_default
             = (True, svc_fds_twice\<lparr>vars := ''fds=b'' @ [NUL]\<rparr>)"
    using s2 fd same2 by (simp add: svc_set_fds_def strseg_cmp_eq)
  have wf: "valid_vars ([] @ (''fds'', ''b'') # [])"
    by (simp add: valid_vars_def valid_key_def valid_value_def NUL_def)
  have pk: "vars (svc_fds_twice\<lparr>vars := ''fds=b'' @ [NUL]\<rparr>) = pack_vars ([] @ (''fds'', ''b'') # [])"
    by (simp add: pack_var_def)
  have g: "svc_get_var (svc_fds_twice\<lparr>vars := ''fds=b'' @ [NUL]\<rparr>) ''fds'' = Some (4, 1)"
    using svc_get_var_present [OF wf pk] by simp
  have vb: "valid_value ''b''" by (simp add: valid_value_def NUL_def)
  have c: "c_string_at (''fds=b'' @ [NUL]) 4 = ''b''"
    using c_string_at_present [OF vb, of "[]" "''fds''" "[]"] by (simp add: pack_var_def eval_nat_numeral)
  have gf: "svc_get_fds (svc_fds_twice\<lparr>vars := ''fds=b'' @ [NUL]\<rparr>) = ''b''"
    using c g by (simp add: svc_get_fds_def)
  show ?thesis
    using A g gf by (simp add: B)
qed

text \<open>
  The theorem at work in the pool: the record with \<open>fds=null\tcontrol.cmd\<close> is reset
  by the default, and set to \<open>control.event\tnull\<close>.
\<close>

theorem set_fds_default_and_flags_witness:
  "valid_vars [(''fds'', ''null'' @ TAB # ''control.cmd'')]
   \<and> vars svc_with_fds = pack_vars [(''fds'', ''null'' @ TAB # ''control.cmd'')]
   \<and> svc_pool cfg_pool
   \<and> vars_in_name_buf cfg_pool svc_with_fds
   \<and> (''fds'', ''null'' @ TAB # ''control.cmd'') \<in> set [(''fds'', ''null'' @ TAB # ''control.cmd'')]
   \<and> svc_set_fds cfg_pool True svc_with_fds fds_default = (True, new_service ''web'')
   \<and> svc_get_var (snd (svc_set_fds cfg_pool True svc_with_fds fds_default)) ''fds'' = None
   \<and> length (vars svc_with_fds) = 21
   \<and> length (vars (snd (svc_set_fds cfg_pool True svc_with_fds fds_default))) = 0
   \<and> valid_value (''control.event'' @ TAB # ''null'')
   \<and> fst (svc_set_fds cfg_pool True svc_with_fds (''control.event'' @ TAB # ''null''))
   \<and> vars_in_name_buf cfg_pool (snd (svc_set_fds cfg_pool True svc_with_fds (''control.event'' @ TAB # ''null'')))
   \<and> vars (snd (svc_set_fds cfg_pool True svc_with_fds (''control.event'' @ TAB # ''null'')))
       = pack_vars [(''fds'', ''control.event'' @ TAB # ''null'')]
   \<and> uses_control_event (snd (svc_set_fds cfg_pool True svc_with_fds (''control.event'' @ TAB # ''null'')))
   \<and> \<not> uses_control_cmd (snd (svc_set_fds cfg_pool True svc_with_fds (''control.event'' @ TAB # ''null'')))
   \<and> \<not> uses_control_socket (snd (svc_set_fds cfg_pool True svc_with_fds (''control.event'' @ TAB # ''null'')))"
proof -
  let ?old = "''null'' @ TAB # ''control.cmd''"
  let ?new = "''control.event'' @ TAB # ''null''"
  have wf: "valid_vars ([] @ (''fds'', ?old) # [])"
    by (simp add: valid_vars_def valid_key_def valid_value_def NUL_def TAB_def)
  have buf: "vars svc_with_fds = pack_vars ([] @ (''fds'', ?old) # [])"
    by (simp add: svc_with_fds_def pack_var_def)
  have pool: "svc_pool cfg_pool" by (simp add: cfg_pool_def)
  have inb: "vars_in_name_buf cfg_pool svc_with_fds"
    by (simp add: vars_in_name_buf_def cfg_pool_def cfg0_def svc_with_fds_def new_service_def)
  have ne: "?new \<noteq> fds_default"
    by (simp add: fds_default_def)
  have vn: "valid_value ?new" by (simp add: valid_value_def NUL_def TAB_def)
  have sv: "svc_set_var cfg_pool True svc_with_fds ''fds'' (Some ?new)
            = (True, svc_with_fds\<lparr>vars := pack_vars ([] @ (''fds'', ?new) # [])\<rparr>)"
    using svc_set_var_present_Some [OF wf buf, of cfg_pool True ?new]
    by (simp add: cfg_pool_def cfg0_def svc_with_fds_def new_service_def)
  have ok: "fst (svc_set_fds cfg_pool True svc_with_fds ?new)"
    using sv ne by (simp add: svc_set_fds_def strseg_cmp_eq split: prod.splits)
  have vr: "vars (snd (svc_set_fds cfg_pool True svc_with_fds ?new)) = pack_vars [(''fds'', ?new)]"
    using ne sv by (simp add: set_fds_vars)
  have nm: "name (snd (svc_set_fds cfg_pool True svc_with_fds ?new)) = ''web''"
    using sv ne by (simp add: svc_set_fds_def strseg_cmp_eq svc_with_fds_def new_service_def split: prod.splits)
  have inb2: "vars_in_name_buf cfg_pool (snd (svc_set_fds cfg_pool True svc_with_fds ?new))"
    using vr nm by (simp add: vars_in_name_buf_def cfg_pool_def cfg0_def pack_var_def)
  have len: "length (vars svc_with_fds) = 21"
    by (simp add: svc_with_fds_def)
  have reset: "svc_with_fds\<lparr>vars := [], uses_control_event := False, uses_control_cmd := False,
                uses_control_socket := False\<rparr> = new_service ''web''"
    by (simp add: svc_with_fds_def new_service_def)
  have v0: "vars (new_service ''web'') = []"
    by (simp add: new_service_def)
  have g0: "svc_get_var (new_service ''web'') ''fds'' = None"
    by (rule svc_get_var_absent [of "[]"]) (simp_all add: v0 valid_vars_def)
  have m: "(''fds'', ?old) \<in> set [(''fds'', ?old)]" by simp
  note t = set_fds_default_and_flags [of "[(''fds'', ?old)]" svc_with_fds cfg_pool True ?new]
  have r1: "svc_set_fds cfg_pool True svc_with_fds fds_default = (True, new_service ''web'')"
    using t wf buf inb by (simp add: reset)
  have r3: "uses_control_event (snd (svc_set_fds cfg_pool True svc_with_fds ?new))
    \<and> \<not> uses_control_cmd (snd (svc_set_fds cfg_pool True svc_with_fds ?new))
    \<and> \<not> uses_control_socket (snd (svc_set_fds cfg_pool True svc_with_fds ?new))"
    using t ok inb2 by (simp add: TAB_def)
  show ?thesis
    using wf buf pool inb m r1 len vn ok inb2 vr r3 by (simp add: g0 v0)
qed

subsection \<open>Triggers with an empty token\<close>

lemma set_var_Some_packed:
  assumes wf: "valid_vars kvs" and buf: "vars svc = pack_vars kvs"
    and vk: "valid_key k" and vv: "valid_value v"
    and ok: "fst (svc_set_var cfg ok1 svc k (Some v))"
  shows "\<exists>kvs1 kvs2. valid_vars (kvs1 @ (k, v) # kvs2)
           \<and> vars (snd (svc_set_var cfg ok1 svc k (Some v))) = pack_vars (kvs1 @ (k, v) # kvs2)"
proof (cases "k \<in> fst ` set kvs")
  case False
  have "svc_set_var cfg ok1 svc k (Some v) = (True, svc\<lparr>vars := pack_vars (kvs @ [(k, v)])\<rparr>)"
    using ok svc_set_var_absent_Some [OF wf buf False, of cfg ok1 v] by (simp split: if_splits)
  then have "vars (snd (svc_set_var cfg ok1 svc k (Some v))) = pack_vars (kvs @ (k, v) # [])"
    by simp
  moreover have "valid_vars (kvs @ (k, v) # [])"
    using valid_vars_snoc [OF wf False vk vv] by simp
  ultimately show ?thesis by blast
next
  case True
  from keys_split [OF True] obtain kvs1 old kvs2 where sp: "kvs = kvs1 @ (k, old) # kvs2"
    by (elim exE)
  have wf0: "valid_vars (kvs1 @ (k, old) # kvs2)" using wf sp by simp
  have buf0: "vars svc = pack_vars (kvs1 @ (k, old) # kvs2)" using buf sp by simp
  have "svc_set_var cfg ok1 svc k (Some v) = (True, svc\<lparr>vars := pack_vars (kvs1 @ (k, v) # kvs2)\<rparr>)"
    using ok svc_set_var_present_Some [OF wf0 buf0, of cfg ok1 v] by (simp split: if_splits)
  then have "vars (snd (svc_set_var cfg ok1 svc k (Some v))) = pack_vars (kvs1 @ (k, v) # kvs2)"
    by simp
  moreover have "valid_vars (kvs1 @ (k, v) # kvs2)"
    using wf0 vv by (rule valid_vars_replace)
  ultimately show ?thesis by blast
qed

lemma get_triggers_packed:
  assumes "valid_vars (kvs1 @ (''triggers'', v) # kvs2)"
    and "vars svc = pack_vars (kvs1 @ (''triggers'', v) # kvs2)"
  shows "svc_get_triggers svc = v"
proof -
  have vv: "valid_value v" using valid_vars_split(4) [OF assms(1)] .
  show ?thesis
    using svc_get_var_present [OF assms] c_string_at_present [OF vv, of kvs1 "''triggers''" kvs2]
    by (simp add: svc_get_triggers_def assms(2))
qed

lemma valid_key_triggers: "valid_key ''triggers''"
  by (simp add: valid_key_def NUL_def)

lemma has_empty_token:
  assumes "tr = pre @ TAB # TAB # rest \<or> tr = pre @ [TAB]"
  shows "parsed_tokens tr = parsed_tokens pre" and "tr \<noteq> []"
  using assms parsed_tokens_double_tab parsed_tokens_trailing_tab by auto

text \<open>
  Claim C10, as amended. Let the triggers string hold an empty token after \<open>pre\<close>:
  two tabs in a row with anything behind them, or a tab at its end. Then
  \<open>svc_set_triggers\<close> parses the tokens of \<open>pre\<close> and no more. If these are recognised
  (each is \<open>always\<close> or a name that \<open>sig_num_by_name\<close> knows and the signal set takes),
  and \<open>svc_set_var\<close> can store the string and leaves the buffer of a pool-backed
  record inside \<open>name_buf\<close>, the call succeeds whatever stands behind the empty
  token; \<open>auto_restart\<close> and \<open>autostart_signals\<close> come from the tokens of \<open>pre\<close> alone;
  and if the buffer was well formed and the string holds no NUL byte, \<open>svc_get_triggers\<close>
  returns the whole string, the part behind the empty token included.
\<close>

theorem set_triggers_stops_at_empty_token:
  assumes empty: "tr = pre @ TAB # TAB # rest \<or> tr = pre @ [TAB]"
    and good: "\<forall>t\<in>set (parsed_tokens pre).
                 t = ''always'' \<or> (0 < sig_num_by_name cfg t \<and> sig_valid cfg (sig_num_by_name cfg t))"
    and store: "fst (svc_set_var cfg ok (svc_at w p) ''triggers'' (Some tr))"
    and inb: "vars_in_name_buf cfg (snd (svc_set_var cfg ok (svc_at w p) ''triggers'' (Some tr)))"
  shows "parsed_tokens tr = parsed_tokens pre
     \<and> fst (svc_set_triggers cfg ok w p tr)
     \<and> auto_restart (svc_at (snd (svc_set_triggers cfg ok w p tr)) p) = (''always'' \<in> set (parsed_tokens pre))
     \<and> autostart_signals (svc_at (snd (svc_set_triggers cfg ok w p tr)) p)
         = sig_num_by_name cfg ` (set (parsed_tokens pre) - {''always''})
     \<and> (valid_vars kvs \<and> vars (svc_at w p) = pack_vars kvs \<and> NUL \<notin> set tr \<longrightarrow>
          svc_get_triggers (svc_at (snd (svc_set_triggers cfg ok w p tr)) p) = tr)"
proof -
  note e = has_empty_token [OF empty]
  obtain svc1 where s1: "svc_set_var cfg ok (svc_at w p) ''triggers'' (Some tr) = (True, svc1)"
    using store by (cases "svc_set_var cfg ok (svc_at w p) ''triggers'' (Some tr)") simp
  have s1': "svc_set_var cfg ok (svc_at w p) ''triggers'' (if tr = [] then None else Some tr) = (True, svc1)"
    using s1 e(2) by simp
  have parse: "triggers_fold cfg (parsed_tokens tr) (False, {}, False) =
     Some (False \<or> ''always'' \<in> set (parsed_tokens pre),
           {} \<union> sig_num_by_name cfg ` (set (parsed_tokens pre) - {''always''}),
           False \<or> (\<exists>t\<in>set (parsed_tokens pre). t \<noteq> ''always''))"
    unfolding e(1) using good by (rule triggers_fold_good)
  note r = set_triggers_success [OF parse s1']
  have get: "svc_get_triggers (svc_at (snd (svc_set_triggers cfg ok w p tr)) p) = tr"
    if h: "valid_vars kvs \<and> vars (svc_at w p) = pack_vars kvs \<and> NUL \<notin> set tr"
  proof -
    from h have wf: "valid_vars kvs" and buf: "vars (svc_at w p) = pack_vars kvs"
      and vv: "valid_value tr" by (simp_all add: valid_value_def)
    from set_var_Some_packed [OF wf buf valid_key_triggers vv store]
    obtain kvs1 kvs2 where v: "valid_vars (kvs1 @ (''triggers'', tr) # kvs2)"
      and p1: "vars svc1 = pack_vars (kvs1 @ (''triggers'', tr) # kvs2)"
      by (auto simp: s1)
    have "vars (svc_at (snd (svc_set_triggers cfg ok w p tr)) p)
            = pack_vars (kvs1 @ (''triggers'', tr) # kvs2)"
      using r(2) p1 by simp
    then show ?thesis using get_triggers_packed [OF v] by blast
  qed
  show ?thesis
    using e(1) r(1) r(3) r(4) get by simp
qed

text \<open>
  The claim as stated (for every triggers string) fails for a string that holds a NUL
  byte: \<open>always TAB TAB NUL x\<close> is parsed up to its empty token and stored whole, but
  \<open>svc_get_triggers\<close> returns the bytes up to the NUL, \<open>always TAB TAB\<close>.
\<close>

theorem set_triggers_stops_at_empty_token_counterexample:
  "fst (svc_set_triggers cfg0 True world1 1 (''always'' @ TAB # TAB # NUL # ''x''))
   \<and> vars (svc_at (snd (svc_set_triggers cfg0 True world1 1 (''always'' @ TAB # TAB # NUL # ''x''))) 1)
       = ''triggers=always'' @ TAB # TAB # NUL # ''x'' @ [NUL]
   \<and> svc_get_triggers (svc_at (snd (svc_set_triggers cfg0 True world1 1 (''always'' @ TAB # TAB # NUL # ''x''))) 1)
       = ''always'' @ [TAB, TAB]
   \<and> ''always'' @ [TAB, TAB] \<noteq> ''always'' @ TAB # TAB # NUL # ''x''"
proof -
  let ?tr = "''always'' @ TAB # TAB # NUL # ''x''"
  have pt: "parsed_tokens ?tr = [''always'']"
    using parsed_tokens_double_tab [of "''always''" "NUL # ''x''"]
    by (simp add: parsed_tokens_def TAB_def)
  have parse: "triggers_fold cfg0 (parsed_tokens ?tr) (False, {}, False) = Some (True, {}, False)"
    using pt by (simp add: trigger_step_def strseg_cmp_eq)
  have store: "svc_set_var cfg0 True (svc_at world1 1) ''triggers'' (if ?tr = [] then None else Some ?tr)
               = (True, (new_service ''web'')\<lparr>vars := pack_vars ([] @ [(''triggers'', ?tr)])\<rparr>)"
    unfolding world1_record
    using svc_set_var_absent_Some [of "[]" "new_service ''web''" "''triggers''" cfg0 True ?tr]
    by (simp add: fresh_record_packed cfg0_def)
  note r = set_triggers_success [OF parse store]
  have v: "vars (svc_at (snd (svc_set_triggers cfg0 True world1 1 ?tr)) 1)
       = ''triggers=always'' @ TAB # TAB # NUL # ''x'' @ [NUL]"
    using r(2) by (simp add: pack_var_def)
  have vk: "valid_key ''triggers''" by (rule valid_key_triggers)
  have vv: "valid_value (''always'' @ [TAB, TAB])" by (simp add: valid_value_def NUL_def TAB_def)
  have d: "drop 0 (''triggers=always'' @ TAB # TAB # NUL # ''x'' @ [NUL])
             = pack_var (''triggers'', ''always'' @ [TAB, TAB]) @ (''x'' @ [NUL])"
    by (simp add: pack_var_def)
  let ?B = "''triggers=always'' @ TAB # TAB # NUL # ''x'' @ [NUL]"
  have f: "find_var ?B ''triggers''
             (0, int (length (pack_var (''triggers'', ''always'' @ [TAB, TAB]))) + int (length (''x'' @ [NUL])))
           = (Some (0 + length ''triggers'' + 1, int (length (''always'' @ [TAB, TAB]))),
              (0 + length (pack_var (''triggers'', ''always'' @ [TAB, TAB])), int (length (''x'' @ [NUL]))))"
    using find_var_step [OF vk vv d, of "''triggers''" "length (''x'' @ [NUL])"] by simp
  have l: "int (length ?B) = int (length (pack_var (''triggers'', ''always'' @ [TAB, TAB])))
                               + int (length (''x'' @ [NUL]))"
    by (simp add: pack_var_def)
  have fv: "fst (find_var ?B ''triggers'' (0, int (length ?B))) = Some (9, 8)"
    unfolding l f by simp
  have g0: "c_string_at ?B 9 = ''always'' @ [TAB, TAB]"
    by (simp add: c_string_at_def NUL_def TAB_def eval_nat_numeral)
  have g: "svc_get_triggers (svc_at (snd (svc_set_triggers cfg0 True world1 1 ?tr)) 1)
       = ''always'' @ [TAB, TAB]"
    unfolding svc_get_triggers_def svc_get_var_def v fv by (simp only: option.case fst_conv g0)
  have n: "''always'' @ [TAB, TAB] \<noteq> ?tr" by simp
  show ?thesis using r(1) v g n by simp
qed

text \<open>
  The theorem at work on the fresh record \<open>web\<close>: of \<open>always TAB SIGINT TAB TAB bogus\<close>
  the tokens \<open>always\<close> and \<open>SIGINT\<close> are parsed, \<open>bogus\<close> does no harm and gets no
  signal, and the whole string is read back.
\<close>

theorem set_triggers_stops_at_empty_token_witness:
  "parsed_tokens (''always'' @ TAB # ''SIGINT'') = [''always'', ''SIGINT'']
   \<and> sig_num_by_name cfg0 ''SIGINT'' = 2 \<and> sig_valid cfg0 2
   \<and> sig_num_by_name cfg0 ''bogus'' = 0
   \<and> fst (svc_set_var cfg0 True (svc_at world1 1) ''triggers''
             (Some (''always'' @ TAB # ''SIGINT'' @ TAB # TAB # ''bogus'')))
   \<and> vars_in_name_buf cfg0 (snd (svc_set_var cfg0 True (svc_at world1 1) ''triggers''
             (Some (''always'' @ TAB # ''SIGINT'' @ TAB # TAB # ''bogus''))))
   \<and> valid_vars [] \<and> vars (svc_at world1 1) = pack_vars []
   \<and> NUL \<notin> set (''always'' @ TAB # ''SIGINT'' @ TAB # TAB # ''bogus'')
   \<and> fst (svc_set_triggers cfg0 True world1 1 (''always'' @ TAB # ''SIGINT'' @ TAB # TAB # ''bogus''))
   \<and> auto_restart (svc_at (snd (svc_set_triggers cfg0 True world1 1
         (''always'' @ TAB # ''SIGINT'' @ TAB # TAB # ''bogus''))) 1)
   \<and> autostart_signals (svc_at (snd (svc_set_triggers cfg0 True world1 1
         (''always'' @ TAB # ''SIGINT'' @ TAB # TAB # ''bogus''))) 1) = {2}
   \<and> svc_get_triggers (svc_at (snd (svc_set_triggers cfg0 True world1 1
         (''always'' @ TAB # ''SIGINT'' @ TAB # TAB # ''bogus''))) 1)
       = ''always'' @ TAB # ''SIGINT'' @ TAB # TAB # ''bogus''"
proof -
  let ?pre = "''always'' @ TAB # ''SIGINT''"
  let ?tr = "''always'' @ TAB # ''SIGINT'' @ TAB # TAB # ''bogus''"
  have pt: "parsed_tokens ?pre = [''always'', ''SIGINT'']"
    by (simp add: parsed_tokens_def TAB_def)
  have sg: "sig_num_by_name cfg0 ''SIGINT'' = 2" "sig_valid cfg0 2" "sig_num_by_name cfg0 ''bogus'' = 0"
    by (simp_all add: cfg0_def)
  have empty: "?tr = ?pre @ TAB # TAB # ''bogus'' \<or> ?tr = ?pre @ [TAB]" by simp
  have good: "\<forall>t\<in>set (parsed_tokens ?pre).
                 t = ''always'' \<or> (0 < sig_num_by_name cfg0 t \<and> sig_valid cfg0 (sig_num_by_name cfg0 t))"
    using pt by (simp add: cfg0_def)
  have s: "svc_set_var cfg0 True (svc_at world1 1) ''triggers'' (Some ?tr)
               = (True, (new_service ''web'')\<lparr>vars := pack_vars ([] @ [(''triggers'', ?tr)])\<rparr>)"
    unfolding world1_record
    using svc_set_var_absent_Some [of "[]" "new_service ''web''" "''triggers''" cfg0 True ?tr]
    by (simp add: fresh_record_packed cfg0_def)
  have store: "fst (svc_set_var cfg0 True (svc_at world1 1) ''triggers'' (Some ?tr))"
    by (simp only: s fst_conv)
  have inb: "vars_in_name_buf cfg0 (snd (svc_set_var cfg0 True (svc_at world1 1) ''triggers'' (Some ?tr)))"
    by (simp add: vars_in_name_buf_def cfg0_def)
  have wf: "valid_vars []" by simp
  have buf: "vars (svc_at world1 1) = pack_vars []"
    unfolding world1_record by (rule fresh_record_packed)
  have nn: "NUL \<notin> set ?tr" by (simp add: NUL_def TAB_def)
  note t = set_triggers_stops_at_empty_token [OF empty good store inb, of "[]"]
  have a: "fst (svc_set_triggers cfg0 True world1 1 ?tr)"
    using t by (elim conjE)
  have b: "auto_restart (svc_at (snd (svc_set_triggers cfg0 True world1 1 ?tr)) 1)"
    using t pt by (elim conjE) simp
  have c: "autostart_signals (svc_at (snd (svc_set_triggers cfg0 True world1 1 ?tr)) 1) = {2}"
    using t pt sg(1) by (elim conjE) (simp del: One_nat_def)
  have d: "svc_get_triggers (svc_at (snd (svc_set_triggers cfg0 True world1 1 ?tr)) 1) = ?tr"
    using t wf buf nn by (elim conjE) blast
  show ?thesis
    using pt sg store inb wf buf nn a b c d by (simp only: simp_thms)
qed

end
